theory Spec2Isabelle
  imports Main "HOL-Library.AList" "HOL-Library.Signed_Division"
begin

section \<open>The host: file, mappings and their failures\<close>

text \<open>
  The page layer of mint talks to the host through \<open>os.File\<close> (OpenFile, Stat, WriteAt,
  Close) and through mmap-go (MapRegion, Unmap). None of that is code of the repository,
  so it is a parameter of the model: every host call appends an event to the list
  \<open>calls\<close>, and what the host answers to the k-th call (an error or none; for a write
  also how many bytes it took) is read from an arbitrary function \<open>host\<close>. A theorem
  that holds for every \<open>host\<close> holds whatever the host answers.

  \<open>mmap.MMap\<close> is a byte slice over a mapped region. Only the identity of the region
  matters here: \<open>None\<close> is the nil slice, \<open>Some r\<close> the r-th region the host handed out.
\<close>

type_synonym MMap = "nat option"

datatype error =
    ErrCacheMiss
  | OSError nat
  | WritePageFailed int error
  | RefreshFailed error
  | UnmapPageFailed int error

text \<open>
  \<open>WritePageFailed offset err\<close> is
  \<^verbatim>\<open>fmt.Errorf("failed to write page at offset %d: %w", offset, err)\<close>,
  \<open>RefreshFailed err\<close> is \<^verbatim>\<open>fmt.Errorf("failed to refresh file info: %w", err)\<close> and
  \<open>UnmapPageFailed id err\<close> is \<^verbatim>\<open>fmt.Errorf("failed to unmap page %d: %w", id, err)\<close>.
\<close>

datatype event =
    EvOpenFile
  | EvStat
  | EvWriteAt int int
  | EvMapRegion int int
  | EvUnmap MMap
  | EvClose

record reply =
  rfail :: "nat option"
  rn :: int

record OS =
  fsize :: int
  pagesize :: int
  nregions :: nat
  calls :: "event list"
  host :: "nat \<Rightarrow> reply"

text \<open>
  A run-time panic (a nil pointer dereference, a division by zero) ends the call without a
  result; \<open>returned\<close> reads the result of a call that did return.
\<close>

datatype 'a outcome = Panic | Done (returned: 'a)

definition answer :: "OS \<Rightarrow> reply" where
  "answer os = host os (length (calls os))"

definition record_event :: "event \<Rightarrow> OS \<Rightarrow> OS" where
  "record_event e os = os\<lparr>calls := calls os @ [e]\<rparr>"

definition failure :: "OS \<Rightarrow> error option" where
  "failure os = map_option OSError (rfail (answer os))"

text \<open>
  Go's \<open>int64\<close> arithmetic wraps around; \<open>i64\<close> is the wrap, written out wherever the
  source adds, subtracts, multiplies or divides (\<open>int\<close> is taken to be 64 bits wide as
  well). The host keeps every file shorter than \<open>2^63\<close> bytes (a file size is an
  \<open>int64\<close>), which \<open>WriteAt\<close> below enforces by refusing a write at a negative offset
  or one that would end beyond that.
\<close>

definition i64 :: "int \<Rightarrow> int" where
  "i64 x = (x + 2 ^ 63) mod 2 ^ 64 - 2 ^ 63"

definition max_int64 :: int where
  "max_int64 = 2 ^ 63 - 1"

definition OpenFile :: "OS \<Rightarrow> error option \<times> OS" where
  "OpenFile os = (failure os, record_event EvOpenFile os)"

definition Stat :: "OS \<Rightarrow> (error + int) \<times> OS" where
  "Stat os =
     (case failure os of
        Some e \<Rightarrow> (Inl e, record_event EvStat os)
      | None \<Rightarrow> (Inr (fsize os), record_event EvStat os))"

definition CloseFile :: "OS \<Rightarrow> error option \<times> OS" where
  "CloseFile os = (failure os, record_event EvClose os)"

text \<open>
  \<open>WriteAt count offset\<close> writes \<open>count\<close> zero bytes at \<open>offset\<close>. The host takes
  some \<open>n\<close> of them, \<open>0 \<le> n \<le> count\<close>, with or without an error, and the file grows
  to \<open>offset + n\<close> when that is beyond its end. Only the size of the file is modelled.
\<close>

definition WriteAt :: "int \<Rightarrow> int \<Rightarrow> OS \<Rightarrow> (int \<times> error option) \<times> OS" where
  "WriteAt count offset os =
     (let os1 = record_event (EvWriteAt count offset) os in
      if offset < 0 \<or> max_int64 < offset + count then ((0, Some (OSError 27)), os1)
      else
        let n = max 0 (min count (rn (answer os))) in
        ((n, failure os),
         os1\<lparr>fsize := (if 0 < n then max (fsize os) (offset + n) else fsize os)\<rparr>))"

text \<open>
  \<open>MapRegion len offset\<close> is \<^verbatim>\<open>mmap.MapRegion(file, len, mmap.RDWR, 0, offset)\<close>:
  an error, or a region never handed out before.
\<close>

definition MapRegion :: "int \<Rightarrow> int \<Rightarrow> OS \<Rightarrow> (error + MMap) \<times> OS" where
  "MapRegion len offset os =
     (case failure os of
        Some e \<Rightarrow> (Inl e, record_event (EvMapRegion len offset) os)
      | None \<Rightarrow>
          (Inr (Some (nregions os)),
           (record_event (EvMapRegion len offset) os)\<lparr>nregions := Suc (nregions os)\<rparr>))"

definition Unmap :: "MMap \<Rightarrow> OS \<Rightarrow> error option \<times> OS" where
  "Unmap m os = (failure os, record_event (EvUnmap m) os)"

section \<open>The LRU cache\<close>

text \<open>
  The cache is a doubly linked list of heap nodes between two sentinels, and a Go map from
  page id to node. Nodes live in a store \<open>nodes\<close> from addresses to nodes; a pointer is
  \<open>None\<close> (nil) or \<open>Some a\<close>; \<open>nalloc\<close> is the next unused address, so that
  \<^verbatim>\<open>&CacheNode{...}\<close> takes address \<open>nalloc\<close>. Dereferencing nil panics.

  The Go map is an association list with distinct keys, updated and deleted through
  \<open>AList.update\<close> and \<open>AList.delete\<close>, so that its length is \<^verbatim>\<open>len(l.lookup)\<close>.
  The pointers it stores are never nil: the only store is of a fresh node. Go leaves the
  order of \<^verbatim>\<open>range\<close> over a map open; the model iterates in list order. The mutex is
  not modelled: one call runs at a time. The size hint of \<^verbatim>\<open>make\<close> for the map has no
  effect on what the map holds, and a negative hint for a map is no panic in Go.
\<close>

record Config =
  MaxCapacity :: int

record CacheNode =
  node_id :: int
  node_data :: MMap
  node_next :: "nat option"
  node_prev :: "nat option"

record Cache =
  lookup :: "(int \<times> nat) list"
  head :: "nat option"
  tail :: "nat option"
  config :: Config
  nodes :: "nat \<Rightarrow> CacheNode"
  nalloc :: nat

definition zero_node :: CacheNode where
  "zero_node = \<lparr>node_id = 0, node_data = None, node_next = None, node_prev = None\<rparr>"

definition set_next :: "nat \<Rightarrow> nat option \<Rightarrow> Cache \<Rightarrow> Cache" where
  "set_next a v l = l\<lparr>nodes := (nodes l)(a := (nodes l a)\<lparr>node_next := v\<rparr>)\<rparr>"

definition set_prev :: "nat \<Rightarrow> nat option \<Rightarrow> Cache \<Rightarrow> Cache" where
  "set_prev a v l = l\<lparr>nodes := (nodes l)(a := (nodes l a)\<lparr>node_prev := v\<rparr>)\<rparr>"

definition set_data :: "nat \<Rightarrow> MMap \<Rightarrow> Cache \<Rightarrow> Cache" where
  "set_data a v l = l\<lparr>nodes := (nodes l)(a := (nodes l a)\<lparr>node_data := v\<rparr>)\<rparr>"

definition new_node :: "CacheNode \<Rightarrow> Cache \<Rightarrow> nat \<times> Cache" where
  "new_node n l = (nalloc l, l\<lparr>nodes := (nodes l)(nalloc l := n), nalloc := Suc (nalloc l)\<rparr>)"

definition NewCache :: "Config \<Rightarrow> Cache" where
  "NewCache config0 =
     (let cfg = (if MaxCapacity config0 = 0 then config0\<lparr>MaxCapacity := 10\<rparr> else config0);
          h = (0::nat);
          t = (1::nat)
      in \<lparr>lookup = [], head = Some h, tail = Some t, config = cfg,
          nodes = (\<lambda>_. zero_node)
                    (h := zero_node\<lparr>node_next := Some t\<rparr>, t := zero_node\<lparr>node_prev := Some h\<rparr>),
          nalloc = 2\<rparr>)"

definition insertAtFront :: "nat \<Rightarrow> Cache \<Rightarrow> Cache outcome" where
  "insertAtFront node l =
     (case head l of
        None \<Rightarrow> Panic
      | Some h \<Rightarrow>
          let l1 = set_next node (node_next (nodes l h)) l;
              l2 = set_prev node (Some h) l1
          in (case node_next (nodes l2 h) of
                None \<Rightarrow> Panic
              | Some hn \<Rightarrow> Done (set_next h (Some node) (set_prev hn (Some node) l2))))"

definition removeFromBack :: "Cache \<Rightarrow> (nat \<times> Cache) outcome" where
  "removeFromBack l =
     (case tail l of
        None \<Rightarrow> Panic
      | Some t \<Rightarrow>
          (case node_prev (nodes l t) of
             None \<Rightarrow> Panic
           | Some lastN \<Rightarrow>
               (case node_prev (nodes l lastN) of
                  None \<Rightarrow> Panic
                | Some lp \<Rightarrow>
                    let l1 = set_next lp (Some t) l;
                        l2 = set_prev t (node_prev (nodes l1 lastN)) l1;
                        l3 = set_next lastN None (set_prev lastN None l2)
                    in Done (lastN, l3))))"

definition moveToFront :: "nat \<Rightarrow> Cache \<Rightarrow> Cache outcome" where
  "moveToFront node l =
     (case head l of
        None \<Rightarrow> Panic
      | Some h \<Rightarrow>
          if Some node = node_next (nodes l h) then Done l
          else
            (case node_prev (nodes l node) of
               None \<Rightarrow> Panic
             | Some p \<Rightarrow>
                 let l1 = set_next p (node_next (nodes l node)) l
                 in (case node_next (nodes l1 node) of
                       None \<Rightarrow> Panic
                     | Some n \<Rightarrow>
                         insertAtFront node (set_prev n (node_prev (nodes l1 node)) l1))))"

definition Get :: "int \<Rightarrow> Cache \<Rightarrow> ((error + MMap) \<times> Cache) outcome" where
  "Get k l =
     (case map_of (lookup l) k of
        Some node \<Rightarrow>
          (case moveToFront node l of
             Panic \<Rightarrow> Panic
           | Done l1 \<Rightarrow> Done (Inr (node_data (nodes l1 node)), l1))
      | None \<Rightarrow> Done (Inl ErrCacheMiss, l))"

text \<open>
  \<open>evict\<close> is the body of the branch \<^verbatim>\<open>if len(l.lookup) >= l.config.MaxCapacity\<close> of
  \<open>Set\<close>; \<open>Set\<close> then allocates the node and links it in, whatever the unmap answered.
\<close>

definition evict :: "Cache \<Rightarrow> OS \<Rightarrow> (error option \<times> Cache \<times> OS) outcome" where
  "evict l os =
     (case removeFromBack l of
        Panic \<Rightarrow> Panic
      | Done (node, l1) \<Rightarrow>
          let (err, os1) = Unmap (node_data (nodes l1 node)) os
          in Done (err, l1\<lparr>lookup := AList.delete (node_id (nodes l1 node)) (lookup l1)\<rparr>, os1))"

definition Set :: "int \<Rightarrow> MMap \<Rightarrow> Cache \<Rightarrow> OS \<Rightarrow> (error option \<times> Cache \<times> OS) outcome" where
  "Set k d l os =
     (case map_of (lookup l) k of
        Some node \<Rightarrow>
          (case moveToFront node (set_data node d l) of
             Panic \<Rightarrow> Panic
           | Done l1 \<Rightarrow> Done (None, l1, os))
      | None \<Rightarrow>
          (case (if MaxCapacity (config l) \<le> int (length (lookup l)) then evict l os
                 else Done (None, l, os)) of
             Panic \<Rightarrow> Panic
           | Done (err, l1, os1) \<Rightarrow>
               let (node, l2) =
                     new_node \<lparr>node_id = k, node_data = d, node_next = None, node_prev = None\<rparr> l1
               in (case insertAtFront node l2 of
                     Panic \<Rightarrow> Panic
                   | Done l3 \<Rightarrow> Done (err, l3\<lparr>lookup := AList.update k node (lookup l3)\<rparr>, os1))))"

text \<open>
  \<open>Close\<close> of the cache: one pass over the map, keeping the first unmap error; then the
  map is replaced by an empty one and both sentinels are dropped.
\<close>

fun Cache_Close_loop :: "(int \<times> nat) list \<Rightarrow> error option \<Rightarrow> Cache \<Rightarrow> OS \<Rightarrow> error option \<times> Cache \<times> OS" where
  "Cache_Close_loop [] firstErr c os = (firstErr, c, os)"
| "Cache_Close_loop ((k, v) # rest) firstErr c os =
     (let (err, os1) = Unmap (node_data (nodes c v)) os;
          firstErr1 = (case err of
                         Some e \<Rightarrow> (if firstErr = None
                                     then Some (UnmapPageFailed (node_id (nodes c v)) e)
                                     else firstErr)
                       | None \<Rightarrow> firstErr);
          c1 = set_prev v None (set_next v None c)
      in Cache_Close_loop rest firstErr1 c1 os1)"

definition Cache_Close :: "Cache \<Rightarrow> OS \<Rightarrow> error option \<times> Cache \<times> OS" where
  "Cache_Close c os =
     (let (firstErr, c1, os1) = Cache_Close_loop (lookup c) None c os
      in (firstErr, c1\<lparr>lookup := [], head := None, tail := None\<rparr>, os1))"


section \<open>The pager\<close>

text \<open>
  The pager of \<open>diskview.go\<close> (the variant with \<open>RefreshInfo\<close>): it keeps the
  \<open>os.FileInfo\<close> of its last Stat, of which only \<open>Size()\<close> is ever read, so \<open>info\<close>
  is that size. There is one backing file, the one of the host state. Integer division by
  zero panics in Go.
\<close>

record Pager =
  source :: string
  info :: int
  pageSize :: int

definition NewPager :: "string \<Rightarrow> OS \<Rightarrow> (error + Pager) \<times> OS" where
  "NewPager src os =
     (case OpenFile os of
        (Some err, os1) \<Rightarrow> (Inl err, os1)
      | (None, os1) \<Rightarrow>
          (case Stat os1 of
             (Inl err, os2) \<Rightarrow> (let (_, os3) = CloseFile os2 in (Inl err, os3))
           | (Inr sz, os2) \<Rightarrow>
               (Inr \<lparr>source = src, info = sz, pageSize = pagesize os2\<rparr>, os2)))"

definition GetPage :: "Pager \<Rightarrow> int \<Rightarrow> OS \<Rightarrow> (error + MMap) \<times> OS" where
  "GetPage p k os = MapRegion (pageSize p) (i64 (k * pageSize p)) os"

definition PageCount :: "Pager \<Rightarrow> int outcome" where
  "PageCount p = (if pageSize p = 0 then Panic else Done (i64 (info p sdiv pageSize p)))"

definition RefreshInfo :: "Pager \<Rightarrow> OS \<Rightarrow> error option \<times> Pager \<times> OS" where
  "RefreshInfo p os =
     (case Stat os of
        (Inl err, os1) \<Rightarrow> (Some err, p, os1)
      | (Inr sz, os1) \<Rightarrow> (None, p\<lparr>info := sz\<rparr>, os1))"

definition Pager_Close :: "Pager \<Rightarrow> OS \<Rightarrow> error option \<times> OS" where
  "Pager_Close p os = CloseFile os"

text \<open>
  The other pager in the sources keeps no file information: its \<open>PageCount\<close> asks the
  file for its size at every call and can fail, and it has a \<open>Write\<close> of its own.
\<close>

record StatPager =
  sp_source :: string
  sp_pageSize :: int

definition StatPager_PageCount :: "StatPager \<Rightarrow> OS \<Rightarrow> (error + int) outcome \<times> OS" where
  "StatPager_PageCount p os =
     (case Stat os of
        (Inl err, os1) \<Rightarrow> (Done (Inl err), os1)
      | (Inr sz, os1) \<Rightarrow>
          (if sp_pageSize p = 0 then Panic else Done (Inr (i64 (sz sdiv sp_pageSize p))), os1))"

definition StatPager_Write :: "StatPager \<Rightarrow> int \<Rightarrow> int \<Rightarrow> OS \<Rightarrow> (int \<times> error option) \<times> OS" where
  "StatPager_Write p count offset os = WriteAt count offset os"

section \<open>The disk viewer\<close>

record DiskViewer =
  cache :: Cache
  pager :: Pager

definition New :: "string \<Rightarrow> Config \<Rightarrow> OS \<Rightarrow> (error + DiskViewer) \<times> OS" where
  "New src cfg os =
     (let c = NewCache cfg in
      case NewPager src os of
        (Inl err, os1) \<Rightarrow> (Inl err, os1)
      | (Inr p, os1) \<Rightarrow> (Inr \<lparr>cache = c, pager = p\<rparr>, os1))"

definition Read :: "DiskViewer \<Rightarrow> int \<Rightarrow> OS \<Rightarrow> ((error + MMap) \<times> DiskViewer \<times> OS) outcome" where
  "Read d k os =
     (case Get k (cache d) of
        Panic \<Rightarrow> Panic
      | Done (Inr dat, c1) \<Rightarrow> Done (Inr dat, d\<lparr>cache := c1\<rparr>, os)
      | Done (Inl _, c1) \<Rightarrow>
          (case GetPage (pager d) k os of
             (Inl err, os1) \<Rightarrow> Done (Inl err, d\<lparr>cache := c1\<rparr>, os1)
           | (Inr dat, os1) \<Rightarrow>
               (case Set k dat c1 os1 of
                  Panic \<Rightarrow> Panic
                | Done (Some err, c2, os2) \<Rightarrow>
                    (let (_, os3) = Unmap dat os2 in Done (Inl err, d\<lparr>cache := c2\<rparr>, os3))
                | Done (None, c2, os2) \<Rightarrow> Done (Inr dat, d\<lparr>cache := c2\<rparr>, os2))))"

text \<open>
  \<open>fill\<close> is called with \<open>count = remaining > 0\<close> only. The loop of \<open>Create\<close> runs
  as long as bytes remain; a host that keeps taking no bytes without an error keeps it
  running for ever, which is the value \<open>None\<close>.
\<close>

definition fill :: "DiskViewer \<Rightarrow> int \<Rightarrow> int \<Rightarrow> OS \<Rightarrow> (int \<times> error option) \<times> OS" where
  "fill d count offset os = WriteAt count offset os"

partial_function (option) Create_loop ::
  "DiskViewer \<Rightarrow> int \<Rightarrow> int \<Rightarrow> OS \<Rightarrow> (error option \<times> OS) option" where
  "Create_loop d remaining offset os =
     (if 0 < remaining then
        (case fill d remaining offset os of
           ((n, Some err), os1) \<Rightarrow> Some (Some (WritePageFailed offset err), os1)
         | ((n, None), os1) \<Rightarrow> Create_loop d (i64 (remaining - n)) (i64 (offset + n)) os1)
      else Some (None, os))"

definition Create :: "DiskViewer \<Rightarrow> OS \<Rightarrow> ((error + int) \<times> DiskViewer \<times> OS) outcome option" where
  "Create d os =
     (case PageCount (pager d) of
        Panic \<Rightarrow> Some Panic
      | Done pc \<Rightarrow>
          (case Create_loop d (pageSize (pager d)) (i64 (pc * pageSize (pager d))) os of
             None \<Rightarrow> None
           | Some (Some err, os1) \<Rightarrow> Some (Done (Inl err, d, os1))
           | Some (None, os1) \<Rightarrow>
               (case RefreshInfo (pager d) os1 of
                  (Some err, p1, os2) \<Rightarrow> Some (Done (Inl (RefreshFailed err), d\<lparr>pager := p1\<rparr>, os2))
                | (None, p1, os2) \<Rightarrow>
                    (case PageCount p1 of
                       Panic \<Rightarrow> Some Panic
                     | Done pc1 \<Rightarrow>
                         (case Get (i64 (pc1 - 1)) (cache d) of
                            Panic \<Rightarrow> Some Panic
                          | Done (_, c1) \<Rightarrow>
                              (case PageCount p1 of
                                 Panic \<Rightarrow> Some Panic
                               | Done pc2 \<Rightarrow>
                                   Some (Done (Inr (i64 (pc2 - 1)),
                                               \<lparr>cache = c1, pager = p1\<rparr>, os2))))))))"

definition DiskViewer_Close :: "DiskViewer \<Rightarrow> OS \<Rightarrow> error option \<times> DiskViewer \<times> OS" where
  "DiskViewer_Close d os =
     (case Cache_Close (cache d) os of
        (Some err, c1, os1) \<Rightarrow> (Some err, d\<lparr>cache := c1\<rparr>, os1)
      | (None, c1, os1) \<Rightarrow>
          (let (err, os2) = Pager_Close (pager d) os1 in (err, d\<lparr>cache := c1\<rparr>, os2)))"

section \<open>What a well-formed cache looks like\<close>

text \<open>
  \<open>chain h p\<close>: along the path \<open>p\<close> of addresses every node's \<open>next\<close> is its
  successor and every node's \<open>prev\<close> its predecessor. \<open>cache_inv c xs\<close>: the list runs
  from the head sentinel through the nodes \<open>xs\<close> (most recently used first) to the tail
  sentinel, all of them distinct and allocated, and the map holds exactly one key per node
  of \<open>xs\<close>, the node's id. \<open>entries c xs\<close> are the (id, region) pairs of those nodes,
  most recently used first. \<open>relinked c c'\<close>: the two caches differ in \<open>next\<close> and
  \<open>prev\<close> pointers only.
\<close>

fun chain :: "(nat \<Rightarrow> CacheNode) \<Rightarrow> nat list \<Rightarrow> bool" where
  "chain h (a # b # r) = (node_next (h a) = Some b \<and> node_prev (h b) = Some a \<and> chain h (b # r))"
| "chain h [a] = True"
| "chain h [] = True"

definition relinked :: "Cache \<Rightarrow> Cache \<Rightarrow> bool" where
  "relinked c c' \<longleftrightarrow>
     lookup c' = lookup c \<and> head c' = head c \<and> tail c' = tail c \<and> config c' = config c \<and>
     nalloc c' = nalloc c \<and>
     (\<forall>a. node_id (nodes c' a) = node_id (nodes c a) \<and> node_data (nodes c' a) = node_data (nodes c a))"

definition cache_inv :: "Cache \<Rightarrow> nat list \<Rightarrow> bool" where
  "cache_inv c xs =
     (case head c of
        None \<Rightarrow> False
      | Some h \<Rightarrow>
          (case tail c of
             None \<Rightarrow> False
           | Some t \<Rightarrow>
               distinct (h # xs @ [t]) \<and> chain (nodes c) (h # xs @ [t]) \<and>
               (\<forall>a \<in> set (h # xs @ [t]). a < nalloc c) \<and>
               distinct (map fst (lookup c)) \<and>
               set (lookup c) = (\<lambda>a. (node_id (nodes c a), a)) ` set xs))"

definition entries :: "Cache \<Rightarrow> nat list \<Rightarrow> (int \<times> MMap) list" where
  "entries c xs = map (\<lambda>a. (node_id (nodes c a), node_data (nodes c a))) xs"

section \<open>Runs and concrete hosts\<close>

text \<open>A run of cache operations, one after the other, stopping at a panic.\<close>

datatype cache_op = OpGet int | OpSet int MMap

fun run_ops :: "cache_op list \<Rightarrow> Cache \<Rightarrow> OS \<Rightarrow> (Cache \<times> OS) outcome" where
  "run_ops [] c os = Done (c, os)"
| "run_ops (OpGet k # ops) c os =
     (case Get k c of Panic \<Rightarrow> Panic | Done (_, c1) \<Rightarrow> run_ops ops c1 os)"
| "run_ops (OpSet k d # ops) c os =
     (case Set k d c os of Panic \<Rightarrow> Panic | Done (_, c1, os1) \<Rightarrow> run_ops ops c1 os1)"

text \<open>One \<open>Set\<close> per pair of a list of (page id, region) pairs, in order.\<close>

definition set_ops :: "(int \<times> MMap) list \<Rightarrow> cache_op list" where
  "set_ops kds = map (\<lambda>(k, d). OpSet k d) kds"

text \<open>
  A run of \<open>n\<close> calls of \<open>Create\<close>, one after the other. For every call it keeps what
  \<open>PageCount\<close> said just before the call, and what the call returned. The run has no
  value when one of the calls does not return, and is a panic when one of them panics.
\<close>

fun Creates ::
  "nat \<Rightarrow> DiskViewer \<Rightarrow> OS \<Rightarrow> ((int outcome \<times> (error + int)) list \<times> DiskViewer \<times> OS) outcome option" where
  "Creates 0 d os = Some (Done ([], d, os))"
| "Creates (Suc n) d os =
     (case Create d os of
        None \<Rightarrow> None
      | Some Panic \<Rightarrow> Some Panic
      | Some (Done (r, d1, os1)) \<Rightarrow>
          (case Creates n d1 os1 of
             None \<Rightarrow> None
           | Some Panic \<Rightarrow> Some Panic
           | Some (Done (rs, d2, os2)) \<Rightarrow> Some (Done ((PageCount (pager d), r) # rs, d2, os2))))"

text \<open>The page ids of the calls that succeeded, in call order.\<close>

fun created_ids :: "(int outcome \<times> (error + int)) list \<Rightarrow> int list" where
  "created_ids [] = []"
| "created_ids ((pc, Inr i) # rs) = i # created_ids rs"
| "created_ids ((pc, Inl e) # rs) = created_ids rs"

text \<open>
  \<open>pages_ok d os k\<close>: the pager of \<open>d\<close> has recorded a file of exactly \<open>k\<close> pages,
  and the file itself has these pages and at most one more, begun or complete.
\<close>

definition pages_ok :: "DiskViewer \<Rightarrow> OS \<Rightarrow> nat \<Rightarrow> bool" where
  "pages_ok d os k \<longleftrightarrow>
     0 < pageSize (pager d) \<and> info (pager d) = int k * pageSize (pager d) \<and>
     info (pager d) \<le> fsize os \<and> fsize os \<le> info (pager d) + pageSize (pager d) \<and>
     fsize os \<le> max_int64"

text \<open>A host state with an empty backing file and nothing mapped yet.\<close>

definition fresh_os :: "int \<Rightarrow> (nat \<Rightarrow> reply) \<Rightarrow> OS" where
  "fresh_os ps h = \<lparr>fsize = 0, pagesize = ps, nregions = 0, calls = [], host = h\<rparr>"

text \<open>A host that never fails and takes up to 4096 bytes, a whole page here, at every write.\<close>

definition willing :: "nat \<Rightarrow> reply" where
  "willing k = \<lparr>rfail = None, rn = 4096\<rparr>"

text \<open>
  A host makes progress when every call it answers without an error takes at least one
  byte, which matters for writes only. \<open>os.File.WriteAt\<close> promises more: it takes every
  byte unless it answers an error.
\<close>

definition makes_progress :: "(nat \<Rightarrow> reply) \<Rightarrow> bool" where
  "makes_progress h \<longleftrightarrow> (\<forall>k. rfail (h k) = None \<longrightarrow> 1 \<le> rn (h k))"

text \<open>The same host, except that the call number \<open>k\<close> (counted from 0) fails and takes no byte.\<close>

definition failing_at :: "nat \<Rightarrow> nat \<Rightarrow> reply" where
  "failing_at k i = (if i = k then \<lparr>rfail = Some 5, rn = 0\<rparr> else \<lparr>rfail = None, rn = 4096\<rparr>)"


text \<open>
  What \<open>New\<close> returns on \<open>fresh_os 4096 h\<close> when the host lets the file be opened:
  a viewer with an empty cache over a file of no pages, and the host state after the two
  calls \<open>New\<close> made.
\<close>

definition fresh_viewer :: "int \<Rightarrow> DiskViewer" where
  "fresh_viewer cap =
     \<lparr>cache = NewCache \<lparr>MaxCapacity = cap\<rparr>,
      pager = \<lparr>source = ''mint.db'', info = 0, pageSize = 4096\<rparr>\<rparr>"

definition opened_os :: "(nat \<Rightarrow> reply) \<Rightarrow> OS" where
  "opened_os h = (fresh_os 4096 h)\<lparr>calls := [EvOpenFile, EvStat]\<rparr>"

text \<open>
  The same viewer and host state after one successful \<open>Create\<close> on a willing host: the
  file has one page, the pager has recorded it, the cache is as it was.
\<close>

definition created_viewer :: "int \<Rightarrow> DiskViewer" where
  "created_viewer cap =
     \<lparr>cache = NewCache \<lparr>MaxCapacity = cap\<rparr>,
      pager = \<lparr>source = ''mint.db'', info = 4096, pageSize = 4096\<rparr>\<rparr>"

definition created_os :: "(nat \<Rightarrow> reply) \<Rightarrow> OS" where
  "created_os h =
     (fresh_os 4096 h)\<lparr>fsize := 4096, calls := [EvOpenFile, EvStat, EvWriteAt 4096 0, EvStat]\<rparr>"

text \<open>
  The viewer and the host state after \<open>New\<close> with capacity 1, one \<open>Create\<close> and a
  \<open>Read\<close> of page 0: the cache holds page 0.
\<close>

definition read_viewer :: "(nat \<Rightarrow> reply) \<Rightarrow> DiskViewer" where
  "read_viewer h = fst (snd (returned (Read (created_viewer 1) 0 (created_os h))))"

definition read_os :: "(nat \<Rightarrow> reply) \<Rightarrow> OS" where
  "read_os h = snd (snd (returned (Read (created_viewer 1) 0 (created_os h))))"

text \<open>A cache of capacity 1 that holds page 0 in region 0.\<close>

definition one_entry_cache :: Cache where
  "one_entry_cache =
     (case Set 0 (Some 0) (NewCache \<lparr>MaxCapacity = 1\<rparr>) (fresh_os 4096 willing) of
        Done (_, c, _) \<Rightarrow> c
      | Panic \<Rightarrow> NewCache \<lparr>MaxCapacity = 1\<rparr>)"

text \<open>A cache of capacity 2 that holds page 0 in region 0 and, more recently used, page 1 in region 1.\<close>

definition two_entry_cache :: Cache where
  "two_entry_cache =
     (case run_ops [OpSet 0 (Some 0), OpSet 1 (Some 1)] (NewCache \<lparr>MaxCapacity = 2\<rparr>)
             (fresh_os 4096 willing) of
        Done (c, _) \<Rightarrow> c
      | Panic \<Rightarrow> NewCache \<lparr>MaxCapacity = 2\<rparr>)"

text \<open>
  A viewer over a file of two pages whose cache, of capacity 1, holds page 0 in region 0,
  and a host state to go with it: one region handed out so far.
\<close>

definition one_page_viewer :: DiskViewer where
  "one_page_viewer =
     \<lparr>cache = one_entry_cache, pager = \<lparr>source = ''mint.db'', info = 8192, pageSize = 4096\<rparr>\<rparr>"

definition two_page_os :: "(nat \<Rightarrow> reply) \<Rightarrow> OS" where
  "two_page_os h = \<lparr>fsize = 8192, pagesize = 4096, nregions = 1, calls = [], host = h\<rparr>"

section \<open>The linked list under the cache operations\<close>

lemmas cache_eval = Set_def Get_def evict_def insertAtFront_def removeFromBack_def moveToFront_def
  new_node_def set_next_def set_prev_def set_data_def NewCache_def zero_node_def Unmap_def
  failure_def answer_def record_event_def fresh_os_def willing_def failing_at_def Let_def

lemma in_set_tlD: "x \<in> set (tl xs) \<Longrightarrow> x \<in> set xs"
  by (cases xs) auto

lemma chain_frame:
  "\<lbrakk>\<forall>a \<in> set (butlast p). node_next (h' a) = node_next (h a);
    \<forall>a \<in> set (tl p). node_prev (h' a) = node_prev (h a)\<rbrakk> \<Longrightarrow> chain h' p = chain h p"
  by (induction h p rule: chain.induct) auto

lemma chain_append:
  "chain h (p @ a # q) = (chain h (p @ [a]) \<and> chain h (a # q))"
  by (induction h p rule: chain.induct) (auto simp: neq_Nil_conv)

lemma chain_snoc2:
  "chain h (p @ [a, b]) = (chain h (p @ [a]) \<and> node_next (h a) = Some b \<and> node_prev (h b) = Some a)"
  using chain_append[of h p a "[b]"] by auto

lemma relinked_refl: "relinked c c"
  by (simp add: relinked_def)

lemma relinked_trans: "relinked a b \<Longrightarrow> relinked b c \<Longrightarrow> relinked a c"
  by (simp add: relinked_def)

lemma insertAtFront_chain:
  assumes "head c = Some h" and "chain (nodes c) (h # r)" and "r \<noteq> []"
    and "distinct (h # r)" and "n \<notin> set (h # r)"
  shows "\<exists>c'. insertAtFront n c = Done c' \<and> chain (nodes c') (h # n # r) \<and> relinked c c'"
proof -
  from assms(3) obtain x r' where r: "r = x # r'" by (cases r) auto
  with assms(2) have nx: "node_next (nodes c h) = Some x" by simp
  define c' where "c' = set_next h (Some n) (set_prev x (Some n) (set_prev n (Some h) (set_next n (Some x) c)))"
  have neq: "n \<noteq> h" "n \<noteq> x" "h \<noteq> x" "x \<notin> set r'" "n \<notin> set r'" "h \<notin> set r'"
    using assms(4,5) r by auto
  have 1: "insertAtFront n c = Done c'"
    using assms(1) nx neq by (simp add: insertAtFront_def c'_def set_next_def set_prev_def Let_def)
  have "chain (nodes c') (x # r') = chain (nodes c) (x # r')"
    by (rule chain_frame) (use neq in \<open>auto simp: c'_def set_next_def set_prev_def dest: in_set_butlastD\<close>)
  then have 2: "chain (nodes c') (h # n # r)"
    using assms(2) r neq by (simp add: c'_def set_next_def set_prev_def)
  have 3: "relinked c c'"
    by (simp add: relinked_def c'_def set_next_def set_prev_def)
  from 1 2 3 show ?thesis by blast
qed

lemma removeFromBack_chain:
  assumes "tail c = Some t" and "chain (nodes c) (p @ [q, x, t])" and "distinct (p @ [q, x, t])"
  shows "\<exists>c'. removeFromBack c = Done (x, c') \<and> chain (nodes c') (p @ [q, t]) \<and> relinked c c'"
proof -
  have ch: "chain (nodes c) (p @ [q])" "node_next (nodes c q) = Some x" "node_prev (nodes c x) = Some q"
    "node_next (nodes c x) = Some t" "node_prev (nodes c t) = Some x"
    using assms(2) chain_snoc2[of "nodes c" "p @ [q]" x t] chain_snoc2[of "nodes c" p q x] by auto
  have neq: "q \<noteq> x" "q \<noteq> t" "x \<noteq> t" "q \<notin> set p" "x \<notin> set p" "t \<notin> set p"
    using assms(3) by auto
  define c' where "c' = set_next x None (set_prev x None (set_prev t (Some q) (set_next q (Some t) c)))"
  have 1: "removeFromBack c = Done (x, c')"
    using assms(1) ch neq by (simp add: removeFromBack_def c'_def set_next_def set_prev_def Let_def)
  have "chain (nodes c') (p @ [q]) = chain (nodes c) (p @ [q])"
    by (rule chain_frame) (use neq in \<open>auto simp: c'_def set_next_def set_prev_def dest: in_set_butlastD in_set_tlD\<close>)
  then have 2: "chain (nodes c') (p @ [q, t])"
    using ch neq by (simp add: chain_snoc2 c'_def set_next_def set_prev_def)
  have 3: "relinked c c'"
    by (simp add: relinked_def c'_def set_next_def set_prev_def)
  from 1 2 3 show ?thesis by blast
qed

lemma unlink_chain:
  assumes "chain h (p @ [a, n, b] @ q)" and "distinct (p @ [a, n, b] @ q)"
    and h': "h' = h(a := (h a)\<lparr>node_next := Some b\<rparr>, b := (h b)\<lparr>node_prev := Some a\<rparr>)"
  shows "chain h' (p @ [a, b] @ q)"
proof -
  have s: "chain h (p @ [a])" "chain h (b # q)"
    using assms(1) chain_append[of h p a "n # b # q"] chain_append[of h "p @ [a, n]" b q] by auto
  have neq: "a \<noteq> b" "a \<notin> set p" "b \<notin> set p" "a \<notin> set q" "b \<notin> set q"
    using assms(2) by auto
  have 1: "chain h' (p @ [a]) = chain h (p @ [a])"
    by (rule chain_frame) (use neq in \<open>auto simp: h' dest: in_set_butlastD in_set_tlD\<close>)
  have 2: "chain h' (b # q) = chain h (b # q)"
    by (rule chain_frame) (use neq in \<open>auto simp: h' dest: in_set_butlastD in_set_tlD\<close>)
  have "chain h' (p @ a # b # q) = (chain h' (p @ [a]) \<and> chain h' (a # b # q))"
    by (rule chain_append)
  then show ?thesis using 1 2 s neq by (simp add: h')
qed

lemma moveToFront_chain:
  assumes "head c = Some h" and "chain (nodes c) (h # as @ n # bs)" and "bs \<noteq> []"
    and "distinct (h # as @ n # bs)"
  shows "\<exists>c'. moveToFront n c = Done c' \<and> chain (nodes c') (h # n # as @ bs) \<and> relinked c c'"
proof (cases as)
  case Nil
  then have "node_next (nodes c h) = Some n" using assms(2) by simp
  then have "moveToFront n c = Done c" using assms(1) by (simp add: moveToFront_def)
  then show ?thesis using Nil assms(2) relinked_refl by auto
next
  case (Cons a0 as')
  obtain p a where pa: "h # as = p @ [a]"
    using Cons by (metis append_butlast_last_id list.distinct(1))
  obtain b q where bq: "bs = b # q" using assms(3) by (cases bs) auto
  have path: "h # as @ n # bs = p @ [a, n, b] @ q" using pa bq by simp
  have ch: "chain (nodes c) (p @ [a, n, b] @ q)" and di: "distinct (p @ [a, n, b] @ q)"
    using assms(2,4) path by simp_all
  have hn: "node_next (nodes c h) = Some a0" using assms(2) Cons by simp
  have "a0 \<noteq> n" using assms(4) Cons by auto
  have lk: "node_prev (nodes c n) = Some a" "node_next (nodes c n) = Some b"
    using ch chain_append[of "nodes c" p a "n # b # q"] by auto
  have neq: "a \<noteq> n" "b \<noteq> n" "a \<noteq> b" using di by auto
  define c1 where "c1 = set_prev b (Some a) (set_next a (Some b) c)"
  have mv: "moveToFront n c = insertAtFront n c1"
    using assms(1) hn \<open>a0 \<noteq> n\<close> lk neq
    by (simp add: moveToFront_def c1_def set_next_def set_prev_def Let_def)
  have "chain (nodes c1) (p @ [a, b] @ q)"
    by (rule unlink_chain[OF ch di]) (use neq in \<open>auto simp: c1_def set_next_def set_prev_def\<close>)
  then have ch1: "chain (nodes c1) (h # as @ bs)" using pa bq
    by (metis append.assoc append_Cons append_Nil)
  have r1: "relinked c c1" by (simp add: relinked_def c1_def set_next_def set_prev_def)
  have h1: "head c1 = Some h" using assms(1) by (simp add: c1_def set_next_def set_prev_def)
  have "\<exists>c'. insertAtFront n c1 = Done c' \<and> chain (nodes c') (h # n # (as @ bs)) \<and> relinked c1 c'"
    by (rule insertAtFront_chain[OF h1 ch1]) (use assms(3,4) in auto)
  then show ?thesis using mv r1 relinked_trans by auto
qed

lemma cache_invI:
  "\<lbrakk>head c = Some h; tail c = Some t; distinct (h # xs @ [t]); chain (nodes c) (h # xs @ [t]);
    \<forall>a \<in> set (h # xs @ [t]). a < nalloc c; distinct (map fst (lookup c));
    set (lookup c) = (\<lambda>a. (node_id (nodes c a), a)) ` set xs\<rbrakk> \<Longrightarrow> cache_inv c xs"
  by (simp add: cache_inv_def)

lemma cache_invE:
  assumes "cache_inv c xs"
  obtains h t where "head c = Some h" "tail c = Some t" "distinct (h # xs @ [t])"
    "chain (nodes c) (h # xs @ [t])" "\<forall>a \<in> set (h # xs @ [t]). a < nalloc c"
    "distinct (map fst (lookup c))" "set (lookup c) = (\<lambda>a. (node_id (nodes c a), a)) ` set xs"
  using assms by (auto simp: cache_inv_def split: option.splits)

lemma inv_lookup_iff:
  assumes "cache_inv c xs"
  shows "map_of (lookup c) k = Some n \<longleftrightarrow> n \<in> set xs \<and> node_id (nodes c n) = k"
proof -
  from assms obtain h t where "head c = Some h" "tail c = Some t"
    and d: "distinct (map fst (lookup c))"
    and s: "set (lookup c) = (\<lambda>a. (node_id (nodes c a), a)) ` set xs"
    by (rule cache_invE)
  have "map_of (lookup c) k = Some n \<longleftrightarrow> (k, n) \<in> set (lookup c)"
    using d by simp
  then show ?thesis using s by auto
qed

lemma inv_length:
  assumes "cache_inv c xs"
  shows "length (lookup c) = length xs"
proof -
  from assms obtain h t where d: "distinct (map fst (lookup c))"
    and s: "set (lookup c) = (\<lambda>a. (node_id (nodes c a), a)) ` set xs"
    and dx: "distinct (h # xs @ [t])"
    by (rule cache_invE)
  have "distinct (lookup c)" using d by (simp add: distinct_map)
  then have "length (lookup c) = card (set (lookup c))" by (simp add: distinct_card)
  also have "\<dots> = card (set xs)" unfolding s by (rule card_image) (simp add: inj_on_def)
  also have "\<dots> = length xs" using dx by (simp add: distinct_card)
  finally show ?thesis .
qed

lemma inv_ids_distinct:
  assumes "cache_inv c xs"
  shows "distinct (map fst (entries c xs))"
proof -
  from assms obtain h t where dx: "distinct (h # xs @ [t])" by (rule cache_invE)
  have "inj_on (\<lambda>a. node_id (nodes c a)) (set xs)"
  proof (rule inj_onI)
    fix a b assume "a \<in> set xs" "b \<in> set xs" "node_id (nodes c a) = node_id (nodes c b)"
    then have "map_of (lookup c) (node_id (nodes c a)) = Some a"
      "map_of (lookup c) (node_id (nodes c a)) = Some b"
      using inv_lookup_iff[OF assms] by auto
    then show "a = b" by simp
  qed
  then show ?thesis using dx by (simp add: entries_def distinct_map comp_def)
qed

lemma inv_keys:
  assumes "cache_inv c xs"
  shows "fst ` set (lookup c) = fst ` set (entries c xs)"
proof -
  from assms obtain h t where "head c = Some h" "tail c = Some t"
    and s: "set (lookup c) = (\<lambda>a. (node_id (nodes c a), a)) ` set xs"
    by (rule cache_invE)
  show ?thesis unfolding s entries_def by (auto simp: image_iff)
qed

lemma inv_map_of_entries:
  assumes "cache_inv c xs"
  shows "map_of (entries c xs) k = map_option (\<lambda>n. node_data (nodes c n)) (map_of (lookup c) k)"
proof (cases "map_of (lookup c) k")
  case None
  then have "k \<notin> fst ` set (lookup c)" by (simp add: map_of_eq_None_iff)
  then have "k \<notin> fst ` set (entries c xs)" using inv_keys[OF assms] by simp
  then have "map_of (entries c xs) k = None" by (simp add: map_of_eq_None_iff)
  then show ?thesis using None by simp
next
  case (Some n)
  then have "n \<in> set xs" "node_id (nodes c n) = k" using inv_lookup_iff[OF assms] by auto
  then have "(k, node_data (nodes c n)) \<in> set (entries c xs)" by (auto simp: entries_def)
  then show ?thesis using Some inv_ids_distinct[OF assms] by simp
qed

lemma set_update_fresh:
  "k \<notin> fst ` set al \<Longrightarrow> set (AList.update k v al) = insert (k, v) (set al)"
  by (induction al) auto

lemma set_delete: "set (AList.delete k al) = {p \<in> set al. fst p \<noteq> k}"
  by (auto simp: AList.delete_eq)

lemma entries_relinked: "relinked c c' \<Longrightarrow> entries c' ys = entries c ys"
  by (simp add: entries_def relinked_def)

lemma inv_relinked:
  assumes "cache_inv c xs" and "relinked c c'" and "head c = Some h" and "tail c = Some t"
    and "chain (nodes c') (h # xs' @ [t])" and "set xs' = set xs" and "distinct xs'"
  shows "cache_inv c' xs'"
proof -
  from assms(1) obtain h0 t0 where i: "head c = Some h0" "tail c = Some t0" "distinct (h0 # xs @ [t0])"
    "\<forall>a \<in> set (h0 # xs @ [t0]). a < nalloc c"
    "distinct (map fst (lookup c))" "set (lookup c) = (\<lambda>a. (node_id (nodes c a), a)) ` set xs"
    by (rule cache_invE)
  have e: "h0 = h" "t0 = t" using i assms(3,4) by auto
  show ?thesis
    using assms(2,3,4,5,6,7) i unfolding e
    by (intro cache_invI[where h = h and t = t]) (auto simp: relinked_def)
qed

lemma entries_promote:
  assumes "distinct (map fst (entries c xs))" and "n \<in> set xs"
  shows "entries c (remove1 n xs) = AList.delete (node_id (nodes c n)) (entries c xs)"
  using assms
proof (induction xs)
  case Nil
  then show ?case by simp
next
  case (Cons a xs)
  show ?case
  proof (cases "a = n")
    case True
    have "node_id (nodes c n) \<notin> fst ` set (entries c xs)"
      using Cons.prems(1) True by (simp add: entries_def image_image)
    then show ?thesis using True by (simp add: entries_def)
  next
    case False
    then have "n \<in> set xs" using Cons.prems(2) by simp
    moreover have "node_id (nodes c a) \<noteq> node_id (nodes c n)"
      using Cons.prems(1) \<open>n \<in> set xs\<close> by (auto simp: entries_def image_iff)
    ultimately show ?thesis using Cons False by (simp add: entries_def)
  qed
qed

lemma Get_miss: "map_of (lookup c) k = None \<Longrightarrow> Get k c = Done (Inl ErrCacheMiss, c)"
  by (simp add: Get_def)

lemma moveToFront_inv:
  assumes "cache_inv c xs" and "n \<in> set xs"
  shows "\<exists>c'. moveToFront n c = Done c' \<and> cache_inv c' (n # remove1 n xs) \<and> relinked c c'"
proof -
  from assms(1) obtain h t where i: "head c = Some h" "tail c = Some t" "distinct (h # xs @ [t])"
    "chain (nodes c) (h # xs @ [t])"
    by (rule cache_invE)
  from assms(2) obtain as bs where xs: "xs = as @ n # bs" "n \<notin> set as"
    by (meson split_list_first)
  have r: "remove1 n xs = as @ bs" using xs by (simp add: remove1_append)
  have "\<exists>c'. moveToFront n c = Done c' \<and> chain (nodes c') (h # n # as @ (bs @ [t])) \<and> relinked c c'"
    by (rule moveToFront_chain[OF i(1)]) (use i xs in auto)
  then obtain c' where c': "moveToFront n c = Done c'" "chain (nodes c') (h # n # as @ bs @ [t])"
    "relinked c c'" by auto
  have "cache_inv c' (n # as @ bs)"
    by (rule inv_relinked[OF assms(1) c'(3) i(1,2)]) (use c'(2) i(3) xs in auto)
  then show ?thesis using c' r by auto
qed

lemma Get_hit:
  assumes "cache_inv c xs" and "map_of (lookup c) k = Some n"
  shows "\<exists>c'. Get k c = Done (Inr (node_data (nodes c n)), c') \<and> cache_inv c' (n # remove1 n xs) \<and>
           relinked c c' \<and>
           entries c' (n # remove1 n xs) = (k, node_data (nodes c n)) # AList.delete k (entries c xs)"
proof -
  have n: "n \<in> set xs" "node_id (nodes c n) = k"
    using inv_lookup_iff[OF assms(1)] assms(2) by auto
  from moveToFront_inv[OF assms(1) n(1)] obtain c' where
    c': "moveToFront n c = Done c'" "cache_inv c' (n # remove1 n xs)" "relinked c c'" by auto
  have d: "node_data (nodes c' n) = node_data (nodes c n)" using c'(3) by (simp add: relinked_def)
  have g: "Get k c = Done (Inr (node_data (nodes c n)), c')"
    using assms(2) c'(1) d by (simp add: Get_def)
  have "entries c' (n # remove1 n xs) = entries c (n # remove1 n xs)"
    by (rule entries_relinked[OF c'(3)])
  also have "\<dots> = (k, node_data (nodes c n)) # entries c (remove1 n xs)"
    using n by (simp add: entries_def)
  also have "entries c (remove1 n xs) = AList.delete k (entries c xs)"
    using entries_promote[OF inv_ids_distinct[OF assms(1)] n(1)] n(2) by simp
  finally show ?thesis using g c' by auto
qed

lemma inv_id_inj:
  assumes "cache_inv c xs" and "a \<in> set xs" and "b \<in> set xs"
    and "node_id (nodes c a) = node_id (nodes c b)"
  shows "a = b"
proof -
  have "map_of (lookup c) (node_id (nodes c a)) = Some a"
    "map_of (lookup c) (node_id (nodes c a)) = Some b"
    using inv_lookup_iff[OF assms(1)] assms(2,3,4) by auto
  then show ?thesis by simp
qed

lemma set_data_inv:
  assumes "cache_inv c xs"
  shows "cache_inv (set_data n d c) xs"
proof -
  from assms obtain h t where i: "head c = Some h" "tail c = Some t" "distinct (h # xs @ [t])"
    "chain (nodes c) (h # xs @ [t])" "\<forall>a \<in> set (h # xs @ [t]). a < nalloc c"
    "distinct (map fst (lookup c))" "set (lookup c) = (\<lambda>a. (node_id (nodes c a), a)) ` set xs"
    by (rule cache_invE)
  have ch: "chain (nodes (set_data n d c)) (h # xs @ [t]) = chain (nodes c) (h # xs @ [t])"
    by (rule chain_frame) (auto simp: set_data_def)
  have ids: "\<And>a. node_id (nodes (set_data n d c) a) = node_id (nodes c a)"
    by (simp add: set_data_def)
  show ?thesis
    by (rule cache_invI[where h = h and t = t]) (use i ch in \<open>auto simp: ids\<close>, auto simp: set_data_def)
qed

lemma Set_hit:
  assumes "cache_inv c xs" and "map_of (lookup c) k = Some n"
  shows "\<exists>c'. Set k d c os = Done (None, c', os) \<and> cache_inv c' (n # remove1 n xs) \<and>
           entries c' (n # remove1 n xs) = (k, d) # AList.delete k (entries c xs) \<and>
           config c' = config c \<and> lookup c' = lookup c"
proof -
  define c1 where "c1 = set_data n d c"
  have n: "n \<in> set xs" "node_id (nodes c n) = k"
    using inv_lookup_iff[OF assms(1)] assms(2) by auto
  have i1: "cache_inv c1 xs" unfolding c1_def by (rule set_data_inv[OF assms(1)])
  from moveToFront_inv[OF i1 n(1)] obtain c' where
    c': "moveToFront n c1 = Done c'" "cache_inv c' (n # remove1 n xs)" "relinked c1 c'" by auto
  have s: "Set k d c os = Done (None, c', os)"
    using assms(2) c'(1) by (simp add: Set_def c1_def)
  from assms(1) obtain h t where dx: "distinct (h # xs @ [t])" by (rule cache_invE)
  have nn: "n \<notin> set (remove1 n xs)" using dx by simp
  have "entries c' (n # remove1 n xs) = entries c1 (n # remove1 n xs)"
    by (rule entries_relinked[OF c'(3)])
  also have "\<dots> = (k, d) # entries c1 (remove1 n xs)"
    using n by (simp add: entries_def c1_def set_data_def)
  also have "entries c1 (remove1 n xs) = entries c (remove1 n xs)"
    using nn by (auto simp: entries_def c1_def set_data_def)
  also have "\<dots> = AList.delete k (entries c xs)"
    using entries_promote[OF inv_ids_distinct[OF assms(1)] n(1)] n(2) by simp
  finally have e: "entries c' (n # remove1 n xs) = (k, d) # AList.delete k (entries c xs)" .
  have "config c' = config c" "lookup c' = lookup c"
    using c'(3) by (simp_all add: relinked_def c1_def set_data_def)
  then show ?thesis using s c'(2) e by auto
qed

lemma evict_inv:
  assumes "cache_inv c (ys @ [x])"
  shows "\<exists>c1. evict c os = Done (failure os, c1, record_event (EvUnmap (node_data (nodes c x))) os) \<and>
           cache_inv c1 ys \<and> entries c1 ys = entries c ys \<and> config c1 = config c \<and>
           nalloc c1 = nalloc c \<and> lookup c1 = AList.delete (node_id (nodes c x)) (lookup c)"
proof -
  from assms obtain h t where i: "head c = Some h" "tail c = Some t" "distinct (h # (ys @ [x]) @ [t])"
    "chain (nodes c) (h # (ys @ [x]) @ [t])" "\<forall>a \<in> set (h # (ys @ [x]) @ [t]). a < nalloc c"
    "distinct (map fst (lookup c))"
    "set (lookup c) = (\<lambda>a. (node_id (nodes c a), a)) ` set (ys @ [x])"
    by (rule cache_invE)
  obtain p q where pq: "h # ys = p @ [q]"
    by (metis append_butlast_last_id list.distinct(1))
  have path: "h # (ys @ [x]) @ [t] = p @ [q, x, t]"
    using pq by (metis append.assoc append_Cons append_Nil)
  have "\<exists>c'. removeFromBack c = Done (x, c') \<and> chain (nodes c') (p @ [q, t]) \<and> relinked c c'"
    by (rule removeFromBack_chain[OF i(2) i(4)[unfolded path] i(3)[unfolded path]])
  then obtain c' where c': "removeFromBack c = Done (x, c')" "chain (nodes c') (p @ [q, t])"
    "relinked c c'" by auto
  have ch: "chain (nodes c') (h # ys @ [t])" using c'(2) pq
    by (metis append.assoc append_Cons append_Nil)
  define c1 where "c1 = c'\<lparr>lookup := AList.delete (node_id (nodes c' x)) (lookup c')\<rparr>"
  have rl: "lookup c' = lookup c" "head c' = head c" "tail c' = tail c" "config c' = config c"
    "nalloc c' = nalloc c" "\<And>a. node_id (nodes c' a) = node_id (nodes c a)"
    "\<And>a. node_data (nodes c' a) = node_data (nodes c a)"
    using c'(3) by (simp_all add: relinked_def)
  have ev: "evict c os = Done (failure os, c1, record_event (EvUnmap (node_data (nodes c x))) os)"
    using c'(1) rl by (simp add: evict_def Unmap_def c1_def)
  have keys: "set (lookup c1) = (\<lambda>a. (node_id (nodes c1 a), a)) ` set ys"
  proof -
    have "\<And>a. a \<in> set ys \<Longrightarrow> node_id (nodes c a) \<noteq> node_id (nodes c x)"
      using inv_id_inj[OF assms, of _ x] i(3) by auto
    then show ?thesis
      using i(7) by (auto simp: c1_def rl set_delete image_iff)
  qed
  have inv: "cache_inv c1 ys"
    by (rule cache_invI[where h = h and t = t])
       (use i ch keys in \<open>auto simp: c1_def rl AList.distinct_delete\<close>)
  have "entries c1 ys = entries c ys" by (simp add: entries_def c1_def rl)
  moreover have "config c1 = config c" "nalloc c1 = nalloc c"
    "lookup c1 = AList.delete (node_id (nodes c x)) (lookup c)"
    by (simp_all add: c1_def rl)
  ultimately show ?thesis using ev inv by auto
qed

lemma link_new:
  assumes "cache_inv c xs" and "map_of (lookup c) k = None"
    and c2: "c2 = snd (new_node \<lparr>node_id = k, node_data = d, node_next = None, node_prev = None\<rparr> c)"
  shows "\<exists>c3. insertAtFront (nalloc c) c2 = Done c3 \<and>
           cache_inv (c3\<lparr>lookup := AList.update k (nalloc c) (lookup c3)\<rparr>) (nalloc c # xs) \<and>
           entries (c3\<lparr>lookup := AList.update k (nalloc c) (lookup c3)\<rparr>) (nalloc c # xs)
             = (k, d) # entries c xs \<and>
           config c3 = config c \<and> lookup c3 = lookup c"
proof -
  from assms(1) obtain h t where i: "head c = Some h" "tail c = Some t" "distinct (h # xs @ [t])"
    "chain (nodes c) (h # xs @ [t])" "\<forall>a \<in> set (h # xs @ [t]). a < nalloc c"
    "distinct (map fst (lookup c))" "set (lookup c) = (\<lambda>a. (node_id (nodes c a), a)) ` set xs"
    by (rule cache_invE)
  define n where "n = nalloc c"
  have fresh: "n \<notin> set (h # xs @ [t])" using i(5) unfolding n_def by auto
  have c2': "c2 = c\<lparr>nodes := (nodes c)(n := \<lparr>node_id = k, node_data = d, node_next = None, node_prev = None\<rparr>),
                    nalloc := Suc n\<rparr>"
    by (simp add: c2 new_node_def n_def)
  have "chain (nodes c2) (h # xs @ [t]) = chain (nodes c) (h # xs @ [t])"
    by (rule chain_frame) (use fresh in \<open>auto simp: c2' dest: in_set_butlastD\<close>)
  then have ch2: "chain (nodes c2) (h # (xs @ [t]))" using i(4) by simp
  have h2: "head c2 = Some h" using i(1) by (simp add: c2')
  have "\<exists>c'. insertAtFront n c2 = Done c' \<and> chain (nodes c') (h # n # (xs @ [t])) \<and> relinked c2 c'"
    by (rule insertAtFront_chain[OF h2 ch2]) (use i(3) fresh in auto)
  then obtain c3 where c3: "insertAtFront n c2 = Done c3" "chain (nodes c3) (h # n # xs @ [t])"
    "relinked c2 c3" by auto
  have rl: "lookup c3 = lookup c" "head c3 = Some h" "tail c3 = Some t" "config c3 = config c"
    "nalloc c3 = Suc n"
    "\<And>a. node_id (nodes c3 a) = (if a = n then k else node_id (nodes c a))"
    "\<And>a. node_data (nodes c3 a) = (if a = n then d else node_data (nodes c a))"
    using c3(3) i(1,2) by (simp_all add: relinked_def c2')
  define c4 where "c4 = c3\<lparr>lookup := AList.update k n (lookup c3)\<rparr>"
  have kf: "k \<notin> fst ` set (lookup c)" using assms(2) by (simp add: map_of_eq_None_iff)
  have nx: "n \<notin> set xs" using fresh by simp
  have keys: "set (lookup c4) = (\<lambda>a. (node_id (nodes c4 a), a)) ` set (n # xs)"
    using nx i(7) by (auto simp: c4_def rl set_update_fresh[OF kf] image_iff)
  have bd: "\<forall>a \<in> set (h # (n # xs) @ [t]). a < nalloc c4"
    using i(5) by (auto simp: c4_def rl n_def less_Suc_eq)
  have di: "distinct (h # (n # xs) @ [t])" using i(3) fresh by auto
  have inv: "cache_inv c4 (n # xs)"
    by (rule cache_invI[where h = h and t = t, OF _ _ di _ bd _ keys])
       (use i(6) c3(2) in \<open>auto simp: c4_def rl AList.distinct_update\<close>)
  have e: "entries c4 (n # xs) = (k, d) # entries c xs"
    using nx by (auto simp: entries_def c4_def rl)
  show ?thesis using c3(1) inv e rl(1,4) unfolding c4_def n_def by auto
qed

lemma Set_room:
  assumes "cache_inv c xs" and "map_of (lookup c) k = None"
    and "\<not> MaxCapacity (config c) \<le> int (length (lookup c))"
  shows "\<exists>c'. Set k d c os = Done (None, c', os) \<and> cache_inv c' (nalloc c # xs) \<and>
           entries c' (nalloc c # xs) = (k, d) # entries c xs \<and> config c' = config c \<and>
           lookup c' = AList.update k (nalloc c) (lookup c)"
proof -
  define c2 where "c2 = snd (new_node \<lparr>node_id = k, node_data = d, node_next = None, node_prev = None\<rparr> c)"
  from link_new[OF assms(1,2) c2_def] obtain c3 where
    c3: "insertAtFront (nalloc c) c2 = Done c3"
      "cache_inv (c3\<lparr>lookup := AList.update k (nalloc c) (lookup c3)\<rparr>) (nalloc c # xs)"
      "entries (c3\<lparr>lookup := AList.update k (nalloc c) (lookup c3)\<rparr>) (nalloc c # xs)
         = (k, d) # entries c xs"
      "config c3 = config c" "lookup c3 = lookup c"
    by blast
  have "Set k d c os = Done (None, c3\<lparr>lookup := AList.update k (nalloc c) (lookup c3)\<rparr>, os)"
    using assms(2,3) c3(1) by (simp add: Set_def c2_def new_node_def)
  then show ?thesis using c3 by auto
qed

lemma Set_full:
  assumes "cache_inv c (ys @ [x])" and "map_of (lookup c) k = None"
    and "MaxCapacity (config c) \<le> int (length (lookup c))"
  shows "\<exists>c'. Set k d c os
             = Done (failure os, c', record_event (EvUnmap (node_data (nodes c x))) os) \<and>
           cache_inv c' (nalloc c # ys) \<and>
           entries c' (nalloc c # ys) = (k, d) # entries c ys \<and> config c' = config c \<and>
           lookup c' = AList.update k (nalloc c) (AList.delete (node_id (nodes c x)) (lookup c))"
proof -
  from evict_inv[OF assms(1), of os] obtain c1 where
    c1: "evict c os = Done (failure os, c1, record_event (EvUnmap (node_data (nodes c x))) os)"
      "cache_inv c1 ys" "entries c1 ys = entries c ys" "config c1 = config c"
      "nalloc c1 = nalloc c" "lookup c1 = AList.delete (node_id (nodes c x)) (lookup c)"
    by blast
  have m1: "map_of (lookup c1) k = None"
    using assms(2) by (simp add: c1(6) AList.delete_conv')
  define c2 where "c2 = snd (new_node \<lparr>node_id = k, node_data = d, node_next = None, node_prev = None\<rparr> c1)"
  from link_new[OF c1(2) m1 c2_def] obtain c3 where
    c3: "insertAtFront (nalloc c1) c2 = Done c3"
      "cache_inv (c3\<lparr>lookup := AList.update k (nalloc c1) (lookup c3)\<rparr>) (nalloc c1 # ys)"
      "entries (c3\<lparr>lookup := AList.update k (nalloc c1) (lookup c3)\<rparr>) (nalloc c1 # ys)
         = (k, d) # entries c1 ys"
      "config c3 = config c1" "lookup c3 = lookup c1"
    by blast
  have "Set k d c os = Done (failure os, c3\<lparr>lookup := AList.update k (nalloc c1) (lookup c3)\<rparr>,
          record_event (EvUnmap (node_data (nodes c x))) os)"
    using assms(2,3) c1(1) c3(1) by (simp add: Set_def c2_def new_node_def)
  then show ?thesis using c3 c1 by auto
qed

lemma NewCache_inv: "cache_inv (NewCache cfg) []"
  by (simp add: cache_inv_def NewCache_def Let_def zero_node_def)

lemma NewCache_config:
  "MaxCapacity (config (NewCache cfg)) = (if MaxCapacity cfg = 0 then 10 else MaxCapacity cfg)"
  by (simp add: NewCache_def Let_def)

lemma NewCache_lookup: "lookup (NewCache cfg) = []"
  by (simp add: NewCache_def Let_def)

section \<open>A negative capacity\<close>

text \<open>
  C10. \<open>NewCache\<close> replaces a capacity of exactly 0 by 10 and keeps any other, so a
  negative \<open>MaxCapacity\<close> stays. On the empty cache it built, the first \<open>Set\<close> finds the
  key absent and \<open>len(l.lookup) = 0 >= MaxCapacity\<close>, so it takes the eviction branch;
  there \<open>removeFromBack\<close> reads \<open>l.tail.prev\<close>, which is the head sentinel, and then
  dereferences the head's \<open>prev\<close>, which is nil: a panic, and \<open>Set\<close> returns nothing.
\<close>

theorem negative_capacity_first_Set_panics:
  "n < 0 \<Longrightarrow>
     MaxCapacity (config (NewCache \<lparr>MaxCapacity = n\<rparr>)) = n \<and>
     map_of (lookup (NewCache \<lparr>MaxCapacity = n\<rparr>)) k = None \<and>
     MaxCapacity (config (NewCache \<lparr>MaxCapacity = n\<rparr>))
       \<le> int (length (lookup (NewCache \<lparr>MaxCapacity = n\<rparr>))) \<and>
     (\<exists>h t. head (NewCache \<lparr>MaxCapacity = n\<rparr>) = Some h \<and>
            tail (NewCache \<lparr>MaxCapacity = n\<rparr>) = Some t \<and>
            node_prev (nodes (NewCache \<lparr>MaxCapacity = n\<rparr>) t) = Some h \<and>
            node_prev (nodes (NewCache \<lparr>MaxCapacity = n\<rparr>) h) = None) \<and>
     removeFromBack (NewCache \<lparr>MaxCapacity = n\<rparr>) = Panic \<and>
     Set k d (NewCache \<lparr>MaxCapacity = n\<rparr>) os = Panic"
  by (simp add: NewCache_def Set_def evict_def removeFromBack_def zero_node_def)

theorem negative_capacity_first_Set_panics_witness:
  "(- 1 :: int) < 0 \<and>
   MaxCapacity (config (NewCache \<lparr>MaxCapacity = - 1\<rparr>)) = - 1 \<and>
   removeFromBack (NewCache \<lparr>MaxCapacity = - 1\<rparr>) = Panic \<and>
   Set 7 (Some 0) (NewCache \<lparr>MaxCapacity = - 1\<rparr>) (fresh_os 4096 willing) = Panic"
  using negative_capacity_first_Set_panics [of "- 1" 7 "Some 0" "fresh_os 4096 willing"]
  by simp


section \<open>Insertion into a full cache\<close>

text \<open>
  C7. A cache of capacity at least 1 is at capacity, and the key \<open>k\<close> is not in it. Then
  \<open>Set k d\<close> returns; the entry it drops is the least recently used one (the last node of
  the recency list): the host is asked once, to unmap that node's region, the node's key
  leaves the map and the node leaves the list; the new entry \<open>(k, d)\<close> is a fresh node at
  the front of the list and in the map, whatever the unmap answered; and the error \<open>Set\<close>
  returns is exactly the answer of that unmap.
\<close>

theorem Set_at_capacity_evicts_lru:
  assumes "cache_inv c xs" and "1 \<le> MaxCapacity (config c)"
    and "MaxCapacity (config c) \<le> int (length (lookup c))"
    and "map_of (lookup c) k = None"
  shows "\<exists>c'. Set k d c os
              = Done (fst (Unmap (node_data (nodes c (last xs))) os), c',
                      snd (Unmap (node_data (nodes c (last xs))) os)) \<and>
            calls (snd (Unmap (node_data (nodes c (last xs))) os))
              = calls os @ [EvUnmap (node_data (nodes c (last xs)))] \<and>
            map_of (lookup c) (node_id (nodes c (last xs))) = Some (last xs) \<and>
            map_of (lookup c') (node_id (nodes c (last xs))) = None \<and>
            last xs \<notin> set (nalloc c # butlast xs) \<and>
            cache_inv c' (nalloc c # butlast xs) \<and>
            entries c' (nalloc c # butlast xs) = (k, d) # entries c (butlast xs) \<and>
            map_of (lookup c') k = Some (nalloc c)"
proof -
  have "length xs = length (lookup c)" using inv_length[OF assms(1)] by simp
  then have ne: "xs \<noteq> []" using assms(2,3) by auto
  define ys x where "ys = butlast xs" and "x = last xs"
  have xs: "xs = ys @ [x]" using ne by (simp add: ys_def x_def)
  have inv: "cache_inv c (ys @ [x])" using assms(1) xs by simp
  from Set_full[OF inv assms(4,3), of d os] obtain c' where
    c': "Set k d c os = Done (failure os, c', record_event (EvUnmap (node_data (nodes c x))) os)"
      "cache_inv c' (nalloc c # ys)" "entries c' (nalloc c # ys) = (k, d) # entries c ys"
      "lookup c' = AList.update k (nalloc c) (AList.delete (node_id (nodes c x)) (lookup c))"
    by blast
  from assms(1) obtain h t where i: "distinct (h # xs @ [t])" "\<forall>a \<in> set (h # xs @ [t]). a < nalloc c"
    by (rule cache_invE)
  have kx: "map_of (lookup c) (node_id (nodes c x)) = Some x"
    using inv_lookup_iff[OF assms(1)] xs by simp
  then have "k \<noteq> node_id (nodes c x)" using assms(4) by auto
  then have gone: "map_of (lookup c') (node_id (nodes c x)) = None"
    by (simp add: c'(4) AList.update_conv' AList.delete_conv')
  have new: "map_of (lookup c') k = Some (nalloc c)"
    by (simp add: c'(4) AList.update_conv')
  have out: "x \<notin> set (nalloc c # ys)" using i xs by auto
  show ?thesis
    using c'(1,2,3) kx gone new out
    unfolding ys_def[symmetric] x_def[symmetric]
    by (auto simp: Unmap_def record_event_def)
qed

theorem Set_at_capacity_evicts_lru_witness:
  "cache_inv one_entry_cache [2] \<and> 1 \<le> MaxCapacity (config one_entry_cache) \<and>
   MaxCapacity (config one_entry_cache) \<le> int (length (lookup one_entry_cache)) \<and>
   map_of (lookup one_entry_cache) 1 = None \<and>
   (\<exists>c'. Set 1 (Some 1) one_entry_cache (fresh_os 4096 (failing_at 0))
            = Done (Some (OSError 5), c',
                    (fresh_os 4096 (failing_at 0))\<lparr>calls := [EvUnmap (Some 0)]\<rparr>) \<and>
          map_of (lookup c') 0 = None \<and> map_of (lookup c') 1 = Some 3 \<and>
          cache_inv c' [3] \<and> entries c' [3] = [(1, Some 1)])"
proof -
  have h: "cache_inv one_entry_cache [2]" "1 \<le> MaxCapacity (config one_entry_cache)"
    "MaxCapacity (config one_entry_cache) \<le> int (length (lookup one_entry_cache))"
    "map_of (lookup one_entry_cache) 1 = None"
    by (simp_all add: one_entry_cache_def cache_inv_def cache_eval)
  have v: "node_data (nodes one_entry_cache 2) = Some 0" "node_id (nodes one_entry_cache 2) = 0"
    "nalloc one_entry_cache = 3"
    by (simp_all add: one_entry_cache_def cache_eval)
  show ?thesis
    using h Set_at_capacity_evicts_lru[OF h, of "Some 1" "fresh_os 4096 (failing_at 0)"]
    by (auto simp: v entries_def Unmap_def failure_def answer_def record_event_def fresh_os_def
                   failing_at_def)
qed


section \<open>The capacity bound\<close>

lemma Get_preserves:
  assumes "cache_inv c xs"
  shows "\<exists>r c' xs'. Get k c = Done (r, c') \<and> cache_inv c' xs' \<and> lookup c' = lookup c \<and>
           config c' = config c"
proof (cases "map_of (lookup c) k")
  case None
  then show ?thesis using Get_miss[OF None] assms by auto
next
  case (Some n)
  from Get_hit[OF assms Some] show ?thesis by (auto simp: relinked_def)
qed

lemma Set_preserves:
  assumes "cache_inv c xs" and "1 \<le> MaxCapacity (config c)"
    and "int (length (lookup c)) \<le> MaxCapacity (config c)"
  shows "\<exists>e c' os' xs'. Set k d c os = Done (e, c', os') \<and> cache_inv c' xs' \<and>
           config c' = config c \<and> int (length (lookup c')) \<le> MaxCapacity (config c')"
proof (cases "map_of (lookup c) k")
  case (Some n)
  from Set_hit[OF assms(1) Some, of d os] show ?thesis using assms(3) by auto
next
  case None
  show ?thesis
  proof (cases "MaxCapacity (config c) \<le> int (length (lookup c))")
    case False
    from Set_room[OF assms(1) None False, of d os] obtain c' where
      c': "Set k d c os = Done (None, c', os)" "cache_inv c' (nalloc c # xs)" "config c' = config c"
      by blast
    have "length (lookup c') = Suc (length (lookup c))"
      using inv_length[OF c'(2)] inv_length[OF assms(1)] by simp
    then show ?thesis using c' False by auto
  next
    case True
    have "xs \<noteq> []" using inv_length[OF assms(1)] assms(2) True by auto
    then have xs: "xs = butlast xs @ [last xs]" by simp
    have inv: "cache_inv c (butlast xs @ [last xs])" using assms(1) xs by simp
    from Set_full[OF inv None True, of d os] obtain c' where
      c': "Set k d c os = Done (failure os, c', record_event (EvUnmap (node_data (nodes c (last xs)))) os)"
        "cache_inv c' (nalloc c # butlast xs)" "config c' = config c"
      by blast
    have "length (lookup c') = length (lookup c)"
      using inv_length[OF c'(2)] inv_length[OF assms(1)] \<open>xs \<noteq> []\<close> by simp
    then show ?thesis using c' assms(3) by auto
  qed
qed

lemma run_ops_preserves:
  assumes "cache_inv c xs" and "1 \<le> MaxCapacity (config c)"
    and "int (length (lookup c)) \<le> MaxCapacity (config c)"
  shows "\<exists>c' os' xs'. run_ops ops c os = Done (c', os') \<and> cache_inv c' xs' \<and>
           config c' = config c \<and> int (length (lookup c')) \<le> MaxCapacity (config c')"
  using assms
proof (induction ops arbitrary: c os xs)
  case Nil
  then show ?case by auto
next
  case (Cons a ops)
  show ?case
  proof (cases a)
    case (OpGet k)
    from Get_preserves[OF Cons.prems(1), of k] obtain r c1 xs1 where
      g: "Get k c = Done (r, c1)" "cache_inv c1 xs1" "lookup c1 = lookup c" "config c1 = config c"
      by blast
    have "\<exists>c' os' xs'. run_ops ops c1 os = Done (c', os') \<and> cache_inv c' xs' \<and>
            config c' = config c1 \<and> int (length (lookup c')) \<le> MaxCapacity (config c')"
      by (rule Cons.IH[OF g(2)]) (use g Cons.prems in auto)
    then show ?thesis using g OpGet by auto
  next
    case (OpSet k d)
    from Set_preserves[OF Cons.prems, of k d os] obtain e c1 os1 xs1 where
      s: "Set k d c os = Done (e, c1, os1)" "cache_inv c1 xs1" "config c1 = config c"
        "int (length (lookup c1)) \<le> MaxCapacity (config c1)"
      by blast
    have "\<exists>c' os' xs'. run_ops ops c1 os1 = Done (c', os') \<and> cache_inv c' xs' \<and>
            config c' = config c1 \<and> int (length (lookup c')) \<le> MaxCapacity (config c')"
      by (rule Cons.IH[OF s(2)]) (use s Cons.prems in auto)
    then show ?thesis using s OpSet by auto
  qed
qed

lemma Set_full_keys:
  assumes "cache_inv c xs" and "1 \<le> MaxCapacity (config c)"
    and "MaxCapacity (config c) \<le> int (length (lookup c))" and "map_of (lookup c) k = None"
  shows "\<exists>e c' os' m kx. Set k d c os = Done (e, c', os') \<and> calls os' = calls os @ [EvUnmap m] \<and>
           kx \<in> fst ` set (lookup c) \<and>
           fst ` set (lookup c') = insert k (fst ` set (lookup c) - {kx}) \<and>
           length (lookup c') = length (lookup c)"
proof -
  have ne: "xs \<noteq> []" using inv_length[OF assms(1)] assms(2,3) by auto
  then have xs: "xs = butlast xs @ [last xs]" by simp
  have inv: "cache_inv c (butlast xs @ [last xs])" using assms(1) xs by simp
  define kx where "kx = node_id (nodes c (last xs))"
  from Set_full[OF inv assms(4,3), of d os] obtain c' where
    c': "Set k d c os = Done (failure os, c', record_event (EvUnmap (node_data (nodes c (last xs)))) os)"
      "cache_inv c' (nalloc c # butlast xs)"
      "lookup c' = AList.update k (nalloc c) (AList.delete kx (lookup c))"
    unfolding kx_def by blast
  have "map_of (lookup c) kx = Some (last xs)"
    using inv_lookup_iff[OF assms(1)] ne by (simp add: kx_def)
  then have in_keys: "kx \<in> fst ` set (lookup c)"
    by (metis map_of_eq_None_iff option.distinct(1))
  have "fst ` set (AList.delete kx (lookup c)) = fst ` set (lookup c) - {kx}"
    using AList.delete_keys[of kx "lookup c"] by (metis list.set_map set_removeAll)
  then have keys: "fst ` set (lookup c') = insert k (fst ` set (lookup c) - {kx})"
    by (simp add: c'(3) AList.dom_update)
  have len: "length (lookup c') = length (lookup c)"
    using inv_length[OF c'(2)] inv_length[OF assms(1)] ne by simp
  show ?thesis using c'(1) in_keys keys len by (auto simp: record_event_def)
qed

text \<open>
  C6. A cache is built by \<open>NewCache\<close> from a capacity that is at least 1, or 0 (which
  stands for 10). After any run of \<open>Get\<close> and \<open>Set\<close> calls, whatever the host answers
  to the unmaps, every call has returned and the map holds at most as many entries as the
  configured capacity. Moreover a \<open>Set\<close> of an absent key on the cache reached, when that
  cache holds exactly its capacity, unmaps exactly one region, drops exactly one key and
  adds the new one, so that the number of entries stays the same.
\<close>

theorem cache_size_bounded_by_capacity:
  assumes "0 \<le> MaxCapacity cfg"
  shows "\<exists>c os'. run_ops ops (NewCache cfg) os = Done (c, os') \<and>
           MaxCapacity (config c) = (if MaxCapacity cfg = 0 then 10 else MaxCapacity cfg) \<and>
           int (length (lookup c)) \<le> MaxCapacity (config c) \<and>
           (\<forall>k d. map_of (lookup c) k = None \<and> int (length (lookup c)) = MaxCapacity (config c) \<longrightarrow>
              (\<exists>e c2 os2 m kx. Set k d c os' = Done (e, c2, os2) \<and>
                 calls os2 = calls os' @ [EvUnmap m] \<and>
                 kx \<in> fst ` set (lookup c) \<and>
                 fst ` set (lookup c2) = insert k (fst ` set (lookup c) - {kx}) \<and>
                 length (lookup c2) = length (lookup c)))"
proof -
  have cap: "1 \<le> MaxCapacity (config (NewCache cfg))"
    using assms by (simp add: NewCache_config)
  have len: "int (length (lookup (NewCache cfg))) \<le> MaxCapacity (config (NewCache cfg))"
    using cap by (simp add: NewCache_lookup)
  from run_ops_preserves[OF NewCache_inv cap len, of ops os] obtain c os' xs where
    r: "run_ops ops (NewCache cfg) os = Done (c, os')" "cache_inv c xs"
      "config c = config (NewCache cfg)" "int (length (lookup c)) \<le> MaxCapacity (config c)"
    by blast
  have cap': "1 \<le> MaxCapacity (config c)" using cap r(3) by simp
  have "\<exists>e c2 os2 m kx. Set k d c os' = Done (e, c2, os2) \<and>
          calls os2 = calls os' @ [EvUnmap m] \<and> kx \<in> fst ` set (lookup c) \<and>
          fst ` set (lookup c2) = insert k (fst ` set (lookup c) - {kx}) \<and>
          length (lookup c2) = length (lookup c)"
    if "map_of (lookup c) k = None" "int (length (lookup c)) = MaxCapacity (config c)" for k d
    by (rule Set_full_keys[OF r(2) cap' _ that(1)]) (use that(2) in simp)
  then show ?thesis using r by (simp add: NewCache_config)
qed


theorem cache_size_bounded_by_capacity_witness:
  "0 \<le> MaxCapacity \<lparr>MaxCapacity = 2\<rparr> \<and>
   (\<exists>c os'. run_ops [OpSet 0 (Some 0), OpGet 0, OpSet 1 (Some 1)]
               (NewCache \<lparr>MaxCapacity = 2\<rparr>) (fresh_os 4096 willing) = Done (c, os') \<and>
      MaxCapacity (config c) = 2 \<and> length (lookup c) = 2 \<and>
      map_of (lookup c) 5 = None \<and> int (length (lookup c)) = MaxCapacity (config c) \<and>
      (\<exists>e c2 os2 m kx. Set 5 (Some 2) c os' = Done (e, c2, os2) \<and>
         calls os2 = calls os' @ [EvUnmap m] \<and> kx \<in> fst ` set (lookup c) \<and>
         fst ` set (lookup c2) = insert 5 (fst ` set (lookup c) - {kx}) \<and>
         length (lookup c2) = length (lookup c)))"
proof -
  define R where "R = run_ops [OpSet 0 (Some 0), OpGet 0, OpSet 1 (Some 1)]
                        (NewCache \<lparr>MaxCapacity = 2\<rparr>) (fresh_os 4096 willing)"
  have h: "0 \<le> MaxCapacity \<lparr>MaxCapacity = 2\<rparr>" by simp
  have v: "(case R of Done (c, _) \<Rightarrow> lookup c | Panic \<Rightarrow> []) = [(0, 2), (1, 3)]"
    by (simp add: R_def cache_eval)
  from cache_size_bounded_by_capacity[OF h, of "[OpSet 0 (Some 0), OpGet 0, OpSet 1 (Some 1)]"
      "fresh_os 4096 willing"]
  obtain c os' where r: "R = Done (c, os')" "MaxCapacity (config c) = 2"
    and s: "\<forall>k d. map_of (lookup c) k = None \<and> int (length (lookup c)) = MaxCapacity (config c) \<longrightarrow>
              (\<exists>e c2 os2 m kx. Set k d c os' = Done (e, c2, os2) \<and>
                 calls os2 = calls os' @ [EvUnmap m] \<and> kx \<in> fst ` set (lookup c) \<and>
                 fst ` set (lookup c2) = insert k (fst ` set (lookup c) - {kx}) \<and>
                 length (lookup c2) = length (lookup c))"
    unfolding R_def by auto
  have l: "lookup c = [(0, 2), (1, 3)]" using v r(1) by simp
  have p: "map_of (lookup c) 5 = None \<and> int (length (lookup c)) = MaxCapacity (config c)"
    using l r(2) by simp
  from s p have "\<exists>e c2 os2 m kx. Set 5 (Some 2) c os' = Done (e, c2, os2) \<and>
         calls os2 = calls os' @ [EvUnmap m] \<and> kx \<in> fst ` set (lookup c) \<and>
         fst ` set (lookup c2) = insert 5 (fst ` set (lookup c) - {kx}) \<and>
         length (lookup c2) = length (lookup c)"
    by blast
  then show ?thesis using r p l unfolding R_def by auto
qed


section \<open>Least recently used first\<close>

lemma run_ops_append:
  "run_ops (a @ b) c os =
     (case run_ops a c os of Panic \<Rightarrow> Panic | Done (c1, os1) \<Rightarrow> run_ops b c1 os1)"
proof (induction a arbitrary: c os)
  case Nil
  then show ?case by simp
next
  case (Cons x a)
  then show ?case by (cases x) (auto split: outcome.splits)
qed

lemma entries_butlast: "entries c (butlast xs) = butlast (entries c xs)"
  by (simp add: entries_def map_butlast)

lemma entries_length: "length (entries c xs) = length xs"
  by (simp add: entries_def)

lemma Set_absent_entries:
  assumes "cache_inv c xs" and "1 \<le> MaxCapacity (config c)"
    and "int (length xs) \<le> MaxCapacity (config c)"
    and "k \<notin> fst ` set (entries c xs)"
  shows "\<exists>e c' os' xs'. Set k d c os = Done (e, c', os') \<and> cache_inv c' xs' \<and>
           config c' = config c \<and>
           entries c' xs' = take (nat (MaxCapacity (config c))) ((k, d) # entries c xs)"
proof -
  have len: "length (lookup c) = length xs" by (rule inv_length[OF assms(1)])
  have absent: "map_of (lookup c) k = None"
    using assms(4) inv_keys[OF assms(1)] by (simp add: map_of_eq_None_iff)
  show ?thesis
  proof (cases "MaxCapacity (config c) \<le> int (length (lookup c))")
    case False
    from Set_room[OF assms(1) absent False, of d os] obtain c' where
      c': "Set k d c os = Done (None, c', os)" "cache_inv c' (nalloc c # xs)"
        "entries c' (nalloc c # xs) = (k, d) # entries c xs" "config c' = config c"
      by blast
    have "take (nat (MaxCapacity (config c))) ((k, d) # entries c xs) = (k, d) # entries c xs"
      using False len by (simp add: entries_length)
    then show ?thesis using c' by auto
  next
    case True
    then have eq: "MaxCapacity (config c) = int (length xs)" using assms(3) len by simp
    have ne: "xs \<noteq> []" using eq assms(2) by auto
    have inv: "cache_inv c (butlast xs @ [last xs])" using assms(1) ne by simp
    from Set_full[OF inv absent True, of d os] obtain c' where
      c': "Set k d c os = Done (failure os, c', record_event (EvUnmap (node_data (nodes c (last xs)))) os)"
        "cache_inv c' (nalloc c # butlast xs)"
        "entries c' (nalloc c # butlast xs) = (k, d) # entries c (butlast xs)"
        "config c' = config c"
      by blast
    have "take (length xs) ((k, d) # entries c xs) = (k, d) # butlast (entries c xs)"
      using ne by (cases xs) (simp_all add: butlast_conv_take entries_length)
    then show ?thesis using c' eq by (auto simp: entries_butlast)
  qed
qed

lemma take_append_take: "take n (a @ take n b) = take n (a @ b)"
  by (simp add: min_def)

lemma run_set_ops_entries:
  assumes "cache_inv c xs" and "1 \<le> MaxCapacity (config c)"
    and "int (length xs) \<le> MaxCapacity (config c)"
    and "distinct (map fst kds)" and "fst ` set kds \<inter> fst ` set (entries c xs) = {}"
  shows "\<exists>c' os' xs'. run_ops (set_ops kds) c os = Done (c', os') \<and> cache_inv c' xs' \<and>
           config c' = config c \<and>
           entries c' xs' = take (nat (MaxCapacity (config c))) (rev kds @ entries c xs)"
  using assms
proof (induction kds arbitrary: c os xs)
  case Nil
  have "take (nat (MaxCapacity (config c))) (entries c xs) = entries c xs"
    using Nil.prems(3) by (simp add: entries_length)
  then show ?case using Nil.prems(1) by (auto simp: set_ops_def)
next
  case (Cons kd kds)
  obtain k d where kd: "kd = (k, d)" by (cases kd)
  have absent: "k \<notin> fst ` set (entries c xs)" using Cons.prems(5) kd by auto
  from Set_absent_entries[OF Cons.prems(1,2,3) absent, of d os] obtain e c1 os1 xs1 where
    s: "Set k d c os = Done (e, c1, os1)" "cache_inv c1 xs1" "config c1 = config c"
      "entries c1 xs1 = take (nat (MaxCapacity (config c))) ((k, d) # entries c xs)"
    by blast
  have l1: "int (length xs1) \<le> MaxCapacity (config c1)"
    using arg_cong[OF s(4), of length] Cons.prems(2) s(3) by (simp add: entries_length)
  have "set (entries c1 xs1) \<subseteq> insert (k, d) (set (entries c xs))"
    unfolding s(4) using set_take_subset[of _ "(k, d) # entries c xs"] by auto
  then have "fst ` set (entries c1 xs1) \<subseteq> insert k (fst ` set (entries c xs))"
    by force
  moreover have "k \<notin> fst ` set kds" using Cons.prems(4) kd by simp
  moreover have "fst ` set kds \<inter> fst ` set (entries c xs) = {}" using Cons.prems(5) by auto
  ultimately have dj: "fst ` set kds \<inter> fst ` set (entries c1 xs1) = {}"
    by blast
  have "\<exists>c' os' xs'. run_ops (set_ops kds) c1 os1 = Done (c', os') \<and> cache_inv c' xs' \<and>
           config c' = config c1 \<and>
           entries c' xs' = take (nat (MaxCapacity (config c1))) (rev kds @ entries c1 xs1)"
    by (rule Cons.IH[OF s(2) _ l1 _ dj]) (use Cons.prems(2,4) s(3) in auto)
  then obtain c' os' xs' where
    r: "run_ops (set_ops kds) c1 os1 = Done (c', os')" "cache_inv c' xs'" "config c' = config c1"
      "entries c' xs' = take (nat (MaxCapacity (config c1))) (rev kds @ entries c1 xs1)"
    by blast
  have "entries c' xs' = take (nat (MaxCapacity (config c))) (rev (kd # kds) @ entries c xs)"
    unfolding r(4) s(3) s(4) kd by (simp add: take_append_take)
  moreover have "run_ops (set_ops (kd # kds)) c os = Done (c', os')"
    using s(1) r(1) kd by (simp add: set_ops_def)
  ultimately show ?case using r(2,3) s(3) by auto
qed

lemma fresh_run_set_ops:
  assumes "1 \<le> cap" and "distinct (map fst kds)"
  shows "\<exists>c os' xs. run_ops (set_ops kds) (NewCache \<lparr>MaxCapacity = cap\<rparr>) os = Done (c, os') \<and>
           cache_inv c xs \<and> MaxCapacity (config c) = cap \<and>
           fst ` set (lookup c) = fst ` set (take (nat cap) (rev kds))"
proof -
  let ?c0 = "NewCache \<lparr>MaxCapacity = cap\<rparr>"
  have cfg: "MaxCapacity (config ?c0) = cap" using assms(1) by (simp add: NewCache_config)
  have "\<exists>c' os' xs'. run_ops (set_ops kds) ?c0 os = Done (c', os') \<and> cache_inv c' xs' \<and>
           config c' = config ?c0 \<and>
           entries c' xs' = take (nat (MaxCapacity (config ?c0))) (rev kds @ entries ?c0 [])"
    by (rule run_set_ops_entries[OF NewCache_inv]) (use assms cfg in \<open>auto simp: entries_def\<close>)
  then obtain c os' xs where
    r: "run_ops (set_ops kds) ?c0 os = Done (c, os')" "cache_inv c xs" "config c = config ?c0"
      "entries c xs = take (nat cap) (rev kds)"
    unfolding cfg by (auto simp: entries_def)
  show ?thesis using r cfg inv_keys[OF r(2)] by auto
qed


lemma set_ops_append: "set_ops (a @ b) = set_ops a @ set_ops b"
  by (simp add: set_ops_def)

lemma first_evicted_at_overflow:
  assumes "1 \<le> N" and "length kds = Suc N" and "distinct (map fst kds)"
  shows "\<exists>cN osN c os'.
           run_ops (set_ops (take N kds)) (NewCache \<lparr>MaxCapacity = int N\<rparr>) os = Done (cN, osN) \<and>
           fst ` set (lookup cN) = fst ` set (take N kds) \<and>
           map_of (lookup cN) (fst (hd kds)) \<noteq> None \<and>
           run_ops (set_ops (drop N kds)) cN osN = Done (c, os') \<and>
           fst ` set (lookup c) = fst ` set (tl kds) \<and>
           map_of (lookup c) (fst (hd kds)) = None \<and>
           Get (fst (hd kds)) c = Done (Inl ErrCacheMiss, c)"
proof -
  let ?c0 = "NewCache \<lparr>MaxCapacity = int N\<rparr>"
  obtain kd rest where kds: "kds = kd # rest" using assms(2) by (cases kds) auto
  have lr: "length rest = N" using assms(2) kds by simp
  have cap: "1 \<le> int N" using assms(1) by simp
  have d1: "distinct (map fst (take N kds))"
    using assms(3) by (simp add: take_map[symmetric])
  from fresh_run_set_ops[OF cap d1, of os] obtain cN osN where
    a: "run_ops (set_ops (take N kds)) ?c0 os = Done (cN, osN)"
      "fst ` set (lookup cN) = fst ` set (take (nat (int N)) (rev (take N kds)))"
    by blast
  have "take N (rev (take N kds)) = rev (take N kds)" by simp
  then have ka: "fst ` set (lookup cN) = fst ` set (take N kds)" using a(2) by simp
  have "kd \<in> set (take N kds)" using kds assms(1) by (cases N) auto
  then have "fst kd \<in> fst ` set (lookup cN)" using ka by auto
  then have ina: "map_of (lookup cN) (fst (hd kds)) \<noteq> None"
    using kds by (simp add: map_of_eq_None_iff)
  from fresh_run_set_ops[OF cap assms(3), of os] obtain c os' where
    b: "run_ops (set_ops kds) ?c0 os = Done (c, os')"
      "fst ` set (lookup c) = fst ` set (take (nat (int N)) (rev kds))"
    by blast
  have "take N (rev kds) = rev rest" using kds lr by simp
  then have kb: "fst ` set (lookup c) = fst ` set (tl kds)" using b(2) kds by simp
  have "fst kd \<notin> fst ` set rest" using assms(3) kds by simp
  then have out: "map_of (lookup c) (fst (hd kds)) = None"
    using kb kds by (simp add: map_of_eq_None_iff)
  have "run_ops (set_ops (take N kds @ drop N kds)) ?c0 os = Done (c, os')" using b(1) by simp
  then have r2: "run_ops (set_ops (drop N kds)) cN osN = Done (c, os')"
    unfolding set_ops_append run_ops_append using a(1) by simp
  show ?thesis using a(1) ka ina r2 kb out Get_miss[OF out] by blast
qed

lemma promoted_entry_outlives_peer:
  assumes "cache_inv c xs" and "1 \<le> MaxCapacity (config c)"
    and "MaxCapacity (config c) \<le> int (length (lookup c))"
    and "map_of (lookup c) k = Some n" and "2 \<le> length xs"
    and "map_of (lookup c) k' = None"
  shows "\<exists>c1 e c2 os2.
           Get k c = Done (Inr (node_data (nodes c n)), c1) \<and>
           Set k' d c1 os = Done (e, c2, os2) \<and>
           map_of (lookup c2) k = Some n \<and>
           node_id (nodes c (last (remove1 n xs))) \<noteq> k \<and>
           map_of (lookup c) (node_id (nodes c (last (remove1 n xs)))) \<noteq> None \<and>
           map_of (lookup c2) (node_id (nodes c (last (remove1 n xs)))) = None"
proof -
  from Get_hit[OF assms(1,4)] obtain c1 where
    g: "Get k c = Done (Inr (node_data (nodes c n)), c1)" "cache_inv c1 (n # remove1 n xs)"
      "relinked c c1"
    by blast
  have rl: "lookup c1 = lookup c" "config c1 = config c"
    "\<And>a. node_id (nodes c1 a) = node_id (nodes c a)"
    using g(3) by (simp_all add: relinked_def)
  have n: "n \<in> set xs" "node_id (nodes c n) = k"
    using inv_lookup_iff[OF assms(1)] assms(4) by auto
  define ys where "ys = remove1 n xs"
  have "length ys = length xs - 1" using n(1) by (simp add: ys_def length_remove1)
  then have ne: "ys \<noteq> []" using assms(5) by auto
  define x where "x = last ys"
  have split: "n # ys = (n # butlast ys) @ [x]" using ne by (simp add: x_def)
  have inv1: "cache_inv c1 ((n # butlast ys) @ [x])" using g(2) split by (simp add: ys_def)
  from assms(1) obtain h t where dx: "distinct (h # xs @ [t])" by (rule cache_invE)
  have xin: "x \<in> set xs" "x \<noteq> n"
    using ne dx n(1) last_in_set[OF ne] unfolding x_def ys_def by auto
  have kx: "node_id (nodes c x) \<noteq> k"
    using inv_id_inj[OF assms(1) xin(1) n(1)] n(2) xin(2) by auto
  have a1: "map_of (lookup c1) k' = None" using assms(6) rl by simp
  have f1: "MaxCapacity (config c1) \<le> int (length (lookup c1))" using assms(3) rl by simp
  from Set_full[OF inv1 a1 f1, of d os] obtain c2 where
    s: "Set k' d c1 os = Done (failure os, c2, record_event (EvUnmap (node_data (nodes c1 x))) os)"
      "lookup c2 = AList.update k' (nalloc c1) (AList.delete (node_id (nodes c1 x)) (lookup c1))"
    by blast
  have kk: "k \<noteq> k'" using assms(4,6) by auto
  have keep: "map_of (lookup c2) k = Some n"
    using kk kx assms(4) by (simp add: s(2) rl AList.update_conv' AList.delete_conv')
  have "map_of (lookup c) (node_id (nodes c x)) = Some x"
    using inv_lookup_iff[OF assms(1), of "node_id (nodes c x)" x] xin(1) by simp
  then have was: "map_of (lookup c) (node_id (nodes c x)) \<noteq> None" by simp
  then have "k' \<noteq> node_id (nodes c x)" using assms(6) by auto
  then have gone: "map_of (lookup c2) (node_id (nodes c x)) = None"
    by (simp add: s(2) rl AList.update_conv' AList.delete_conv')
  show ?thesis
    using g(1) s(1) keep kx was gone unfolding x_def ys_def by blast
qed

text \<open>
  C5. (1) A fresh cache of capacity \<open>N \<ge> 1\<close> takes \<open>N + 1\<close> insertions of distinct page
  ids: after the first \<open>N\<close> it holds all of them, the first one included; the last
  insertion evicts exactly the first id, so the cache then holds the other \<open>N\<close> and a
  \<open>Get\<close> of the first id is a miss. (2) In a cache at capacity that holds \<open>k\<close> and at
  least one other entry, a \<open>Get\<close> of \<open>k\<close> followed by the insertion of a new id keeps
  \<open>k\<close>: the entry dropped is the least recently used of the others. (3) With capacity 2,
  after \<open>Set(0)\<close>, \<open>Set(1)\<close>, \<open>Set(2)\<close> the cache holds exactly the ids 1 and 2 and
  \<open>Get(0)\<close> is a miss. All of it whatever the regions are and whatever the host answers.
\<close>

theorem lru_eviction_order:
  "(1 \<le> N \<and> length kds = Suc N \<and> distinct (map fst kds) \<longrightarrow>
      (\<exists>cN osN c os'.
         run_ops (set_ops (take N kds)) (NewCache \<lparr>MaxCapacity = int N\<rparr>) os = Done (cN, osN) \<and>
         fst ` set (lookup cN) = fst ` set (take N kds) \<and>
         map_of (lookup cN) (fst (hd kds)) \<noteq> None \<and>
         run_ops (set_ops (drop N kds)) cN osN = Done (c, os') \<and>
         fst ` set (lookup c) = fst ` set (tl kds) \<and>
         map_of (lookup c) (fst (hd kds)) = None \<and>
         Get (fst (hd kds)) c = Done (Inl ErrCacheMiss, c))) \<and>
   (cache_inv c0 xs \<and> 1 \<le> MaxCapacity (config c0) \<and>
    MaxCapacity (config c0) \<le> int (length (lookup c0)) \<and>
    map_of (lookup c0) k = Some n \<and> 2 \<le> length xs \<and> map_of (lookup c0) k' = None \<longrightarrow>
      (\<exists>c1 e c2 os2.
         Get k c0 = Done (Inr (node_data (nodes c0 n)), c1) \<and>
         Set k' d c1 os = Done (e, c2, os2) \<and>
         map_of (lookup c2) k = Some n \<and>
         node_id (nodes c0 (last (remove1 n xs))) \<noteq> k \<and>
         map_of (lookup c0) (node_id (nodes c0 (last (remove1 n xs)))) \<noteq> None \<and>
         map_of (lookup c2) (node_id (nodes c0 (last (remove1 n xs)))) = None)) \<and>
   (\<exists>c os'. run_ops [OpSet 0 d0, OpSet 1 d1, OpSet 2 d2] (NewCache \<lparr>MaxCapacity = 2\<rparr>) os
               = Done (c, os') \<and>
             fst ` set (lookup c) = {1, 2} \<and>
             Get 0 c = Done (Inl ErrCacheMiss, c))"
proof (intro conjI impI)
  assume "1 \<le> N \<and> length kds = Suc N \<and> distinct (map fst kds)"
  then show "\<exists>cN osN c os'.
         run_ops (set_ops (take N kds)) (NewCache \<lparr>MaxCapacity = int N\<rparr>) os = Done (cN, osN) \<and>
         fst ` set (lookup cN) = fst ` set (take N kds) \<and>
         map_of (lookup cN) (fst (hd kds)) \<noteq> None \<and>
         run_ops (set_ops (drop N kds)) cN osN = Done (c, os') \<and>
         fst ` set (lookup c) = fst ` set (tl kds) \<and>
         map_of (lookup c) (fst (hd kds)) = None \<and>
         Get (fst (hd kds)) c = Done (Inl ErrCacheMiss, c)"
    using first_evicted_at_overflow[of N kds os] by simp
next
  assume "cache_inv c0 xs \<and> 1 \<le> MaxCapacity (config c0) \<and>
    MaxCapacity (config c0) \<le> int (length (lookup c0)) \<and>
    map_of (lookup c0) k = Some n \<and> 2 \<le> length xs \<and> map_of (lookup c0) k' = None"
  then show "\<exists>c1 e c2 os2.
         Get k c0 = Done (Inr (node_data (nodes c0 n)), c1) \<and>
         Set k' d c1 os = Done (e, c2, os2) \<and>
         map_of (lookup c2) k = Some n \<and>
         node_id (nodes c0 (last (remove1 n xs))) \<noteq> k \<and>
         map_of (lookup c0) (node_id (nodes c0 (last (remove1 n xs)))) \<noteq> None \<and>
         map_of (lookup c2) (node_id (nodes c0 (last (remove1 n xs)))) = None"
    using promoted_entry_outlives_peer[of c0 xs k n k' d os] by simp
next
  have "\<exists>cN osN c os'.
     run_ops (set_ops (take 2 [(0, d0), (1, d1), (2, d2)])) (NewCache \<lparr>MaxCapacity = int 2\<rparr>) os
       = Done (cN, osN) \<and>
     fst ` set (lookup cN) = fst ` set (take 2 [(0, d0), (1, d1), (2, d2)]) \<and>
     map_of (lookup cN) (fst (hd [(0, d0), (1, d1), (2, d2)])) \<noteq> None \<and>
     run_ops (set_ops (drop 2 [(0, d0), (1, d1), (2, d2)])) cN osN = Done (c, os') \<and>
     fst ` set (lookup c) = fst ` set (tl [(0, d0), (1, d1), (2, d2)]) \<and>
     map_of (lookup c) (fst (hd [(0, d0), (1, d1), (2, d2)])) = None \<and>
     Get (fst (hd [(0, d0), (1, d1), (2, d2)])) c = Done (Inl ErrCacheMiss, c)"
    by (rule first_evicted_at_overflow) simp_all
  then obtain cN osN c os' where
    r: "run_ops (set_ops [(0, d0), (1, d1)]) (NewCache \<lparr>MaxCapacity = 2\<rparr>) os = Done (cN, osN)"
      "run_ops (set_ops [(2, d2)]) cN osN = Done (c, os')"
      "fst ` set (lookup c) = {1, 2}" "Get 0 c = Done (Inl ErrCacheMiss, c)"
    by (auto simp: numeral_2_eq_2)
  have "run_ops (set_ops ([(0, d0), (1, d1)] @ [(2, d2)])) (NewCache \<lparr>MaxCapacity = 2\<rparr>) os
          = Done (c, os')"
    unfolding set_ops_append run_ops_append using r(1,2) by simp
  then have "run_ops [OpSet 0 d0, OpSet 1 d1, OpSet 2 d2] (NewCache \<lparr>MaxCapacity = 2\<rparr>) os
          = Done (c, os')"
    by (simp add: set_ops_def)
  then show "\<exists>c os'. run_ops [OpSet 0 d0, OpSet 1 d1, OpSet 2 d2] (NewCache \<lparr>MaxCapacity = 2\<rparr>) os
               = Done (c, os') \<and>
             fst ` set (lookup c) = {1, 2} \<and>
             Get 0 c = Done (Inl ErrCacheMiss, c)"
    using r(3,4) by blast
qed


theorem lru_eviction_order_witness:
  "(1 \<le> (2::nat) \<and> length [(0::int, Some (0::nat)), (1, Some 1), (2, Some 2)] = Suc 2 \<and>
    distinct (map fst [(0::int, Some (0::nat)), (1, Some 1), (2, Some 2)])) \<and>
   (cache_inv two_entry_cache [3, 2] \<and> 1 \<le> MaxCapacity (config two_entry_cache) \<and>
    MaxCapacity (config two_entry_cache) \<le> int (length (lookup two_entry_cache)) \<and>
    map_of (lookup two_entry_cache) 0 = Some 2 \<and> 2 \<le> length [3::nat, 2] \<and>
    map_of (lookup two_entry_cache) 2 = None) \<and>
   (\<exists>cN osN c os'.
      run_ops (set_ops [(0, Some 0), (1, Some 1)]) (NewCache \<lparr>MaxCapacity = 2\<rparr>)
        (fresh_os 4096 willing) = Done (cN, osN) \<and>
      map_of (lookup cN) 0 \<noteq> None \<and>
      run_ops (set_ops [(2, Some 2)]) cN osN = Done (c, os') \<and>
      fst ` set (lookup c) = {1, 2} \<and>
      Get 0 c = Done (Inl ErrCacheMiss, c)) \<and>
   (\<exists>c1 e c2 os2.
      Get 0 two_entry_cache = Done (Inr (Some 0), c1) \<and>
      Set 2 (Some 2) c1 (fresh_os 4096 willing) = Done (e, c2, os2) \<and>
      map_of (lookup c2) 0 = Some 2 \<and> map_of (lookup c2) 1 = None)"
proof -
  have h1: "1 \<le> (2::nat) \<and> length [(0::int, Some (0::nat)), (1, Some 1), (2, Some 2)] = Suc 2 \<and>
    distinct (map fst [(0::int, Some (0::nat)), (1, Some 1), (2, Some 2)])"
    by simp
  have h2: "cache_inv two_entry_cache [3, 2] \<and> 1 \<le> MaxCapacity (config two_entry_cache) \<and>
    MaxCapacity (config two_entry_cache) \<le> int (length (lookup two_entry_cache)) \<and>
    map_of (lookup two_entry_cache) 0 = Some 2 \<and> 2 \<le> length [3::nat, 2] \<and>
    map_of (lookup two_entry_cache) 2 = None"
    by (auto simp: two_entry_cache_def cache_inv_def cache_eval)
  have v: "node_data (nodes two_entry_cache 2) = Some 0" "node_id (nodes two_entry_cache 3) = 1"
    by (simp_all add: two_entry_cache_def cache_eval)
  note t = lru_eviction_order[where N = 2 and kds = "[(0, Some 0), (1, Some 1), (2, Some 2)]"
      and os = "fresh_os 4096 willing" and ?c0.0 = two_entry_cache and xs = "[3, 2]"
      and k = 0 and n = 2 and k' = 2 and d = "Some 2" and ?d0.0 = None and ?d1.0 = None
      and ?d2.0 = None]
  from conjunct1[OF t] h1 have a: "\<exists>cN osN c os'.
      run_ops (set_ops [(0, Some 0), (1, Some 1)]) (NewCache \<lparr>MaxCapacity = 2\<rparr>)
        (fresh_os 4096 willing) = Done (cN, osN) \<and>
      map_of (lookup cN) 0 \<noteq> None \<and>
      run_ops (set_ops [(2, Some 2)]) cN osN = Done (c, os') \<and>
      fst ` set (lookup c) = {1, 2} \<and>
      Get 0 c = Done (Inl ErrCacheMiss, c)"
    by (auto simp: numeral_2_eq_2)
  from conjunct1[OF conjunct2[OF t]] h2 have b: "\<exists>c1 e c2 os2.
      Get 0 two_entry_cache = Done (Inr (Some 0), c1) \<and>
      Set 2 (Some 2) c1 (fresh_os 4096 willing) = Done (e, c2, os2) \<and>
      map_of (lookup c2) 0 = Some 2 \<and> map_of (lookup c2) 1 = None"
    by (auto simp: v)
  show ?thesis using h1 h2 a b by blast
qed


section \<open>Reading a page\<close>

lemma Set_absent:
  assumes "cache_inv c xs" and "1 \<le> MaxCapacity (config c)" and "map_of (lookup c) k = None"
  shows "\<exists>c'. Set k d c os
             = Done (if MaxCapacity (config c) \<le> int (length (lookup c)) then failure os else None,
                     c',
                     if MaxCapacity (config c) \<le> int (length (lookup c))
                     then record_event (EvUnmap (node_data (nodes c (last xs)))) os else os) \<and>
           cache_inv c' (nalloc c # (if MaxCapacity (config c) \<le> int (length (lookup c))
                                     then butlast xs else xs)) \<and>
           config c' = config c \<and> map_of (lookup c') k = Some (nalloc c) \<and>
           node_id (nodes c' (nalloc c)) = k \<and> node_data (nodes c' (nalloc c)) = d"
proof (cases "MaxCapacity (config c) \<le> int (length (lookup c))")
  case False
  from Set_room[OF assms(1,3) False, of d os] obtain c' where
    c': "Set k d c os = Done (None, c', os)" "cache_inv c' (nalloc c # xs)"
      "entries c' (nalloc c # xs) = (k, d) # entries c xs" "config c' = config c"
      "lookup c' = AList.update k (nalloc c) (lookup c)"
    by blast
  have "map_of (lookup c') k = Some (nalloc c)" by (simp add: c'(5) AList.update_conv')
  then show ?thesis using c' False by (auto simp: entries_def)
next
  case True
  have ne: "xs \<noteq> []" using inv_length[OF assms(1)] assms(2) True by auto
  have inv: "cache_inv c (butlast xs @ [last xs])" using assms(1) ne by simp
  from Set_full[OF inv assms(3) True, of d os] obtain c' where
    c': "Set k d c os = Done (failure os, c', record_event (EvUnmap (node_data (nodes c (last xs)))) os)"
      "cache_inv c' (nalloc c # butlast xs)"
      "entries c' (nalloc c # butlast xs) = (k, d) # entries c (butlast xs)" "config c' = config c"
      "lookup c' = AList.update k (nalloc c) (AList.delete (node_id (nodes c (last xs))) (lookup c))"
    by blast
  have "map_of (lookup c') k = Some (nalloc c)" by (simp add: c'(5) AList.update_conv')
  then show ?thesis using c' True by (auto simp: entries_def)
qed

text \<open>
  C2. The cache of the viewer is well formed, with a capacity of at least 1. If the cache
  holds an entry for \<open>k\<close>, \<open>Read\<close> returns that entry's region and asks the host
  nothing. Otherwise it calls \<open>GetPage\<close>: an error there is returned as it is; a region
  obtained is one the host never handed out before, it is passed to \<open>Set\<close>, after which
  the cache maps \<open>k\<close> to a node holding that region; when \<open>Set\<close> answered no error
  \<open>Read\<close> returns the region, and when \<open>Set\<close> answered an error \<open>Read\<close> unmaps the
  region (the last call to the host) and returns that error, and no region.
\<close>

theorem Read_cache_first_then_pager:
  assumes "cache_inv (cache dv) xs" and "1 \<le> MaxCapacity (config (cache dv))"
  shows "(\<forall>n. map_of (lookup (cache dv)) k = Some n \<longrightarrow>
            (\<exists>c1. Read dv k os = Done (Inr (node_data (nodes (cache dv) n)), dv\<lparr>cache := c1\<rparr>, os) \<and>
                  lookup c1 = lookup (cache dv))) \<and>
         (map_of (lookup (cache dv)) k = None \<longrightarrow>
            (case GetPage (pager dv) k os of
               (Inl err, os1) \<Rightarrow> Read dv k os = Done (Inl err, dv, os1)
             | (Inr r, os1) \<Rightarrow>
                 r = Some (nregions os) \<and>
                 (\<exists>e c2 os2 n'.
                    Set k r (cache dv) os1 = Done (e, c2, os2) \<and>
                    map_of (lookup c2) k = Some n' \<and> node_data (nodes c2 n') = r \<and>
                    (case e of
                       None \<Rightarrow> Read dv k os = Done (Inr r, dv\<lparr>cache := c2\<rparr>, os2)
                     | Some err \<Rightarrow>
                         Read dv k os = Done (Inl err, dv\<lparr>cache := c2\<rparr>, snd (Unmap r os2)) \<and>
                         calls (snd (Unmap r os2)) = calls os2 @ [EvUnmap r]))))"
proof (intro conjI allI impI)
  fix n assume hit: "map_of (lookup (cache dv)) k = Some n"
  from Get_hit[OF assms(1) hit] obtain c1 where
    g: "Get k (cache dv) = Done (Inr (node_data (nodes (cache dv) n)), c1)" "relinked (cache dv) c1"
    by blast
  have "Read dv k os = Done (Inr (node_data (nodes (cache dv) n)), dv\<lparr>cache := c1\<rparr>, os)"
    using g(1) by (simp add: Read_def)
  moreover have "lookup c1 = lookup (cache dv)" using g(2) by (simp add: relinked_def)
  ultimately show "\<exists>c1. Read dv k os
        = Done (Inr (node_data (nodes (cache dv) n)), dv\<lparr>cache := c1\<rparr>, os) \<and>
      lookup c1 = lookup (cache dv)"
    by blast
next
  assume miss: "map_of (lookup (cache dv)) k = None"
  have g: "Get k (cache dv) = Done (Inl ErrCacheMiss, cache dv)" by (rule Get_miss[OF miss])
  obtain res os1 where gp: "GetPage (pager dv) k os = (res, os1)" by (cases "GetPage (pager dv) k os")
  show "case GetPage (pager dv) k os of
          (Inl err, os1) \<Rightarrow> Read dv k os = Done (Inl err, dv, os1)
        | (Inr r, os1) \<Rightarrow>
            r = Some (nregions os) \<and>
            (\<exists>e c2 os2 n'.
               Set k r (cache dv) os1 = Done (e, c2, os2) \<and>
               map_of (lookup c2) k = Some n' \<and> node_data (nodes c2 n') = r \<and>
               (case e of
                  None \<Rightarrow> Read dv k os = Done (Inr r, dv\<lparr>cache := c2\<rparr>, os2)
                | Some err \<Rightarrow>
                    Read dv k os = Done (Inl err, dv\<lparr>cache := c2\<rparr>, snd (Unmap r os2)) \<and>
                    calls (snd (Unmap r os2)) = calls os2 @ [EvUnmap r]))"
  proof (cases res)
    case (Inl err)
    then show ?thesis using g gp by (simp add: Read_def)
  next
    case (Inr r)
    have fresh: "r = Some (nregions os)"
      using gp Inr by (auto simp: GetPage_def MapRegion_def split: option.splits)
    from Set_absent[OF assms(1,2) miss, of r os1] obtain e c2 os2 where
      s: "Set k r (cache dv) os1 = Done (e, c2, os2)"
        "map_of (lookup c2) k = Some (nalloc (cache dv))"
        "node_data (nodes c2 (nalloc (cache dv))) = r"
      by blast
    have rd: "case e of
                None \<Rightarrow> Read dv k os = Done (Inr r, dv\<lparr>cache := c2\<rparr>, os2)
              | Some err \<Rightarrow>
                  Read dv k os = Done (Inl err, dv\<lparr>cache := c2\<rparr>, snd (Unmap r os2)) \<and>
                  calls (snd (Unmap r os2)) = calls os2 @ [EvUnmap r]"
      using g gp Inr s(1)
      by (cases e) (simp_all add: Read_def Unmap_def record_event_def split: prod.splits)
    show ?thesis using gp Inr fresh s rd by auto
  qed
qed


theorem Read_cache_first_then_pager_witness:
  "cache_inv (cache one_page_viewer) [2] \<and> 1 \<le> MaxCapacity (config (cache one_page_viewer)) \<and>
   map_of (lookup (cache one_page_viewer)) 0 = Some 2 \<and>
   (\<exists>c1. Read one_page_viewer 0 (two_page_os willing)
            = Done (Inr (Some 0), one_page_viewer\<lparr>cache := c1\<rparr>, two_page_os willing)) \<and>
   map_of (lookup (cache one_page_viewer)) 1 = None \<and>
   (\<exists>c2. Read one_page_viewer 1 (two_page_os (failing_at 1))
            = Done (Inl (OSError 5), one_page_viewer\<lparr>cache := c2\<rparr>,
                    (two_page_os (failing_at 1))
                      \<lparr>nregions := 2,
                       calls := [EvMapRegion 4096 4096, EvUnmap (Some 0), EvUnmap (Some 1)]\<rparr>)) \<and>
   (\<exists>e. Read one_page_viewer 1 (two_page_os (failing_at 0))
            = Done (Inl e, one_page_viewer,
                    (two_page_os (failing_at 0))\<lparr>calls := [EvMapRegion 4096 4096]\<rparr>))"
proof -
  have h: "cache_inv (cache one_page_viewer) [2]" "1 \<le> MaxCapacity (config (cache one_page_viewer))"
    by (simp_all add: one_page_viewer_def one_entry_cache_def cache_inv_def cache_eval)
  have v: "map_of (lookup (cache one_page_viewer)) 0 = Some 2"
    "map_of (lookup (cache one_page_viewer)) 1 = None"
    "node_data (nodes (cache one_page_viewer) 2) = Some 0"
    by (simp_all add: one_page_viewer_def one_entry_cache_def cache_eval)
  have gp: "GetPage (pager one_page_viewer) 1 (two_page_os (failing_at 1))
              = (Inr (Some 1), (two_page_os (failing_at 1))
                   \<lparr>nregions := 2, calls := [EvMapRegion 4096 4096]\<rparr>)"
    "GetPage (pager one_page_viewer) 1 (two_page_os (failing_at 0))
              = (Inl (OSError 5), (two_page_os (failing_at 0))\<lparr>calls := [EvMapRegion 4096 4096]\<rparr>)"
    by (simp_all add: one_page_viewer_def two_page_os_def GetPage_def MapRegion_def i64_def
          failure_def answer_def record_event_def failing_at_def)
  have st: "\<exists>c2. Set 1 (Some 1) (cache one_page_viewer)
               ((two_page_os (failing_at 1))\<lparr>nregions := 2, calls := [EvMapRegion 4096 4096]\<rparr>)
             = Done (Some (OSError 5), c2,
                  (two_page_os (failing_at 1))
                    \<lparr>nregions := 2, calls := [EvMapRegion 4096 4096, EvUnmap (Some 0)]\<rparr>)"
    by (simp add: one_page_viewer_def one_entry_cache_def two_page_os_def cache_eval)
  note t = Read_cache_first_then_pager[OF h]
  have a: "\<exists>c1. Read one_page_viewer 0 (two_page_os willing)
            = Done (Inr (Some 0), one_page_viewer\<lparr>cache := c1\<rparr>, two_page_os willing)"
    using t[of 0 "two_page_os willing"] v by auto
  have b: "\<exists>c2. Read one_page_viewer 1 (two_page_os (failing_at 1))
            = Done (Inl (OSError 5), one_page_viewer\<lparr>cache := c2\<rparr>,
                    (two_page_os (failing_at 1))
                      \<lparr>nregions := 2,
                       calls := [EvMapRegion 4096 4096, EvUnmap (Some 0), EvUnmap (Some 1)]\<rparr>)"
    using t[of 1 "two_page_os (failing_at 1)"] v gp(1) st
    by (auto simp: Unmap_def record_event_def two_page_os_def)
  have c: "\<exists>e. Read one_page_viewer 1 (two_page_os (failing_at 0))
            = Done (Inl e, one_page_viewer,
                    (two_page_os (failing_at 0))\<lparr>calls := [EvMapRegion 4096 4096]\<rparr>)"
    using t[of 1 "two_page_os (failing_at 0)"] v gp(2) by auto
  show ?thesis using h v(1,2) a b c by blast
qed


section \<open>A failed eviction inside Read\<close>

lemma Cache_Close_loop_calls:
  "calls (snd (snd (Cache_Close_loop l fe c os)))
     = calls os @ map (\<lambda>kv. EvUnmap (node_data (nodes c (snd kv)))) l"
proof (induction l arbitrary: fe c os)
  case Nil
  then show ?case by simp
next
  case (Cons kv l)
  obtain k v where kv: "kv = (k, v)" by (cases kv)
  have same: "\<And>a. node_data (nodes (set_prev v None (set_next v None c)) a) = node_data (nodes c a)"
    by (simp add: set_prev_def set_next_def)
  show ?case
    unfolding kv
    by (simp add: Let_def Unmap_def record_event_def Cons.IH same split: prod.splits)
qed

lemma Cache_Close_calls:
  "calls (snd (snd (Cache_Close c os)))
     = calls os @ map (\<lambda>kv. EvUnmap (node_data (nodes c (snd kv)))) (lookup c)"
  using Cache_Close_loop_calls[of "lookup c" None c os]
  by (auto simp: Cache_Close_def split: prod.splits)

lemma Cache_Close_unmaps_entry:
  assumes "map_of (lookup c) k = Some n"
  shows "EvUnmap (node_data (nodes c n))
           \<in> set (drop (length (calls os)) (calls (snd (snd (Cache_Close c os)))))"
proof -
  have "(k, n) \<in> set (lookup c)" using assms by (rule map_of_SomeD)
  then show ?thesis unfolding Cache_Close_calls by force
qed


text \<open>
  C9. The cache of the viewer is well formed, with a capacity of at least 1, and does not
  hold \<open>k\<close>; \<open>GetPage\<close> gave the region \<open>r\<close>, and \<open>Set k r\<close> answered an error.
  Then the cache was at capacity and the error is the answer to the unmap of the evicted,
  least recently used region; the new node is in the cache already, holding \<open>r\<close>;
  \<open>Read\<close> unmaps \<open>r\<close> and returns the error. So the cache holds an entry whose region
  has been unmapped: a \<open>Close\<close> of the cache right away makes at least two unmaps of
  \<open>r\<close> in all, any later \<open>Close\<close> of a cache that still maps \<open>k\<close> to that node with
  that region unmaps \<open>r\<close> again, and so does any later \<open>Set\<close> that evicts that node.
\<close>

theorem Read_unmaps_region_left_in_cache:
  assumes "cache_inv (cache dv) xs" and "1 \<le> MaxCapacity (config (cache dv))"
    and "map_of (lookup (cache dv)) k = None"
    and "GetPage (pager dv) k os = (Inr r, os1)"
    and "Set k r (cache dv) os1 = Done (Some err, c2, os2)"
  shows "MaxCapacity (config (cache dv)) \<le> int (length (lookup (cache dv))) \<and> xs \<noteq> [] \<and>
         Unmap (node_data (nodes (cache dv) (last xs))) os1 = (Some err, os2) \<and>
         map_of (lookup c2) k = Some (nalloc (cache dv)) \<and>
         node_data (nodes c2 (nalloc (cache dv))) = r \<and>
         Read dv k os = Done (Inl err, dv\<lparr>cache := c2\<rparr>, snd (Unmap r os2)) \<and>
         calls (snd (Unmap r os2)) = calls os2 @ [EvUnmap r] \<and>
         2 \<le> count_list (calls (snd (snd (Cache_Close c2 (snd (Unmap r os2)))))) (EvUnmap r) \<and>
         (\<forall>c5 os5. map_of (lookup c5) k = Some (nalloc (cache dv)) \<and>
                    node_data (nodes c5 (nalloc (cache dv))) = r \<longrightarrow>
              EvUnmap r \<in> set (drop (length (calls os5)) (calls (snd (snd (Cache_Close c5 os5)))))) \<and>
         (\<forall>c5 ys os5 k5 d5.
              cache_inv c5 (ys @ [nalloc (cache dv)]) \<and>
              node_data (nodes c5 (nalloc (cache dv))) = r \<and>
              map_of (lookup c5) k5 = None \<and>
              MaxCapacity (config c5) \<le> int (length (lookup c5)) \<longrightarrow>
              (\<exists>e c6. Set k5 d5 c5 os5 = Done (e, c6, snd (Unmap r os5))))"
proof -
  let ?c = "cache dv"
  from Set_absent[OF assms(1,2,3), of r os1] obtain c' where
    s: "Set k r ?c os1
          = Done (if MaxCapacity (config ?c) \<le> int (length (lookup ?c)) then failure os1 else None,
                  c',
                  if MaxCapacity (config ?c) \<le> int (length (lookup ?c))
                  then record_event (EvUnmap (node_data (nodes ?c (last xs)))) os1 else os1)"
      "map_of (lookup c') k = Some (nalloc ?c)" "node_data (nodes c' (nalloc ?c)) = r"
    by blast
  have full: "MaxCapacity (config ?c) \<le> int (length (lookup ?c))"
    using s(1) assms(5) by (auto split: if_splits)
  have eq: "failure os1 = Some err" "c' = c2"
    "os2 = record_event (EvUnmap (node_data (nodes ?c (last xs)))) os1"
    using s(1) assms(5) full by simp_all
  have ne: "xs \<noteq> []" using inv_length[OF assms(1)] assms(2) full by auto
  have um: "Unmap (node_data (nodes ?c (last xs))) os1 = (Some err, os2)"
    using eq by (simp add: Unmap_def)
  have g: "Get k ?c = Done (Inl ErrCacheMiss, ?c)" by (rule Get_miss[OF assms(3)])
  have rd: "Read dv k os = Done (Inl err, dv\<lparr>cache := c2\<rparr>, snd (Unmap r os2))"
    using g assms(4,5) by (simp add: Read_def split: prod.splits)
  have cl: "calls (snd (Unmap r os2)) = calls os2 @ [EvUnmap r]"
    by (simp add: Unmap_def record_event_def)
  have in2: "map_of (lookup c2) k = Some (nalloc ?c)" "node_data (nodes c2 (nalloc ?c)) = r"
    using s(2,3) eq(2) by simp_all
  have close: "\<And>c5 os5. map_of (lookup c5) k = Some (nalloc ?c) \<Longrightarrow>
                 node_data (nodes c5 (nalloc ?c)) = r \<Longrightarrow>
                 EvUnmap r \<in> set (drop (length (calls os5)) (calls (snd (snd (Cache_Close c5 os5)))))"
    using Cache_Close_unmaps_entry by metis
  have "(k, nalloc ?c) \<in> set (lookup c2)" using in2(1) by (rule map_of_SomeD)
  then have "EvUnmap r \<in> set (map (\<lambda>kv. EvUnmap (node_data (nodes c2 (snd kv)))) (lookup c2))"
    using in2(2) by force
  then have "1 \<le> count_list (map (\<lambda>kv. EvUnmap (node_data (nodes c2 (snd kv)))) (lookup c2)) (EvUnmap r)"
    using count_list_0_iff[of _ "EvUnmap r"] by (metis One_nat_def Suc_leI neq0_conv)
  then have twice: "2 \<le> count_list (calls (snd (snd (Cache_Close c2 (snd (Unmap r os2)))))) (EvUnmap r)"
    unfolding Cache_Close_calls cl by simp
  have ev: "\<exists>e c6. Set k5 d5 c5 os5 = Done (e, c6, snd (Unmap r os5))"
    if "cache_inv c5 (ys @ [nalloc ?c])" "node_data (nodes c5 (nalloc ?c)) = r"
      "map_of (lookup c5) k5 = None" "MaxCapacity (config c5) \<le> int (length (lookup c5))"
    for c5 ys os5 k5 d5
    using Set_full[OF that(1,3,4), of d5 os5] that(2) by (auto simp: Unmap_def)
  show ?thesis using full ne um in2 rd cl twice close ev by blast
qed


theorem Read_unmaps_region_left_in_cache_witness:
  "cache_inv (cache one_page_viewer) [2] \<and> 1 \<le> MaxCapacity (config (cache one_page_viewer)) \<and>
   map_of (lookup (cache one_page_viewer)) 1 = None \<and>
   GetPage (pager one_page_viewer) 1 (two_page_os (failing_at 1))
     = (Inr (Some 1), (two_page_os (failing_at 1))\<lparr>nregions := 2, calls := [EvMapRegion 4096 4096]\<rparr>) \<and>
   (\<exists>c2 os2.
      Set 1 (Some 1) (cache one_page_viewer)
          ((two_page_os (failing_at 1))\<lparr>nregions := 2, calls := [EvMapRegion 4096 4096]\<rparr>)
        = Done (Some (OSError 5), c2, os2) \<and>
      calls os2 = [EvMapRegion 4096 4096, EvUnmap (Some 0)] \<and>
      Read one_page_viewer 1 (two_page_os (failing_at 1))
        = Done (Inl (OSError 5), one_page_viewer\<lparr>cache := c2\<rparr>, snd (Unmap (Some 1) os2)) \<and>
      map_of (lookup c2) 1 = Some 3 \<and> node_data (nodes c2 3) = Some 1 \<and>
      2 \<le> count_list (calls (snd (snd (Cache_Close c2 (snd (Unmap (Some 1) os2))))))
             (EvUnmap (Some 1)) \<and>
      cache_inv c2 ([] @ [3]) \<and> map_of (lookup c2) 2 = None \<and>
      MaxCapacity (config c2) \<le> int (length (lookup c2)) \<and>
      (\<exists>e c6. Set 2 (Some 2) c2 (snd (Unmap (Some 1) os2))
                = Done (e, c6, snd (Unmap (Some 1) (snd (Unmap (Some 1) os2))))))"
proof -
  let ?os1 = "(two_page_os (failing_at 1))\<lparr>nregions := 2, calls := [EvMapRegion 4096 4096]\<rparr>"
  have h: "cache_inv (cache one_page_viewer) [2]" "1 \<le> MaxCapacity (config (cache one_page_viewer))"
    "map_of (lookup (cache one_page_viewer)) 1 = None"
    by (simp_all add: one_page_viewer_def one_entry_cache_def cache_inv_def cache_eval)
  have gp: "GetPage (pager one_page_viewer) 1 (two_page_os (failing_at 1)) = (Inr (Some 1), ?os1)"
    by (simp add: one_page_viewer_def two_page_os_def GetPage_def MapRegion_def i64_def
          failure_def answer_def record_event_def failing_at_def)
  have ev: "case Set 1 (Some 1) (cache one_page_viewer) ?os1 of
              Panic \<Rightarrow> False
            | Done (e, c2, os2) \<Rightarrow>
                e = Some (OSError 5) \<and> calls os2 = [EvMapRegion 4096 4096, EvUnmap (Some 0)] \<and>
                cache_inv c2 ([] @ [3]) \<and> map_of (lookup c2) 2 = None \<and>
                MaxCapacity (config c2) \<le> int (length (lookup c2))"
    by (simp add: one_page_viewer_def one_entry_cache_def two_page_os_def cache_inv_def cache_eval)
  then obtain c2 os2 where
    st: "Set 1 (Some 1) (cache one_page_viewer) ?os1 = Done (Some (OSError 5), c2, os2)"
      "calls os2 = [EvMapRegion 4096 4096, EvUnmap (Some 0)]"
      "cache_inv c2 ([] @ [3])" "map_of (lookup c2) 2 = None"
      "MaxCapacity (config c2) \<le> int (length (lookup c2))"
    by (auto split: outcome.splits)
  have n: "nalloc (cache one_page_viewer) = 3"
    by (simp add: one_page_viewer_def one_entry_cache_def cache_eval)
  note t = Read_unmaps_region_left_in_cache[OF h gp st(1), unfolded n]
  have d: "node_data (nodes c2 3) = Some 1" using t by blast
  have later: "\<exists>e c6. Set 2 (Some 2) c2 (snd (Unmap (Some 1) os2))
                = Done (e, c6, snd (Unmap (Some 1) (snd (Unmap (Some 1) os2))))"
    using t st(3,4,5) d by blast
  show ?thesis using h gp st t later by blast
qed


section \<open>Creating pages\<close>

lemma i64_id: "- (2 ^ 63) \<le> x \<Longrightarrow> x < 2 ^ 63 \<Longrightarrow> i64 x = x"
  by (simp add: i64_def)

lemma i64_small: "0 \<le> x \<Longrightarrow> x \<le> max_int64 \<Longrightarrow> i64 x = x"
  by (rule i64_id) (simp_all add: max_int64_def)

lemma sdiv_nonneg: "0 \<le> a \<Longrightarrow> 0 < b \<Longrightarrow> a sdiv b = a div (b::int)"
  by (simp add: signed_divide_int_def sgn_if)

lemma WriteAt_cases:
  assumes "WriteAt count offset os = ((n, e), os1)" and "0 \<le> count"
  shows "pagesize os1 = pagesize os \<and> 0 \<le> n \<and> n \<le> count \<and>
         fsize os1 = (if 0 < n then max (fsize os) (offset + n) else fsize os) \<and>
         (e = None \<or> 0 < n \<longrightarrow> 0 \<le> offset \<and> offset + count \<le> max_int64)"
  using assms
  by (auto simp: WriteAt_def Let_def record_event_def failure_def split: if_splits)

lemma Create_loop_result:
  assumes "Create_loop d rem off os = Some y"
  shows "0 \<le> rem \<Longrightarrow> 0 \<le> off \<Longrightarrow> off \<le> fsize os \<Longrightarrow> fsize os \<le> max_int64 \<Longrightarrow>
         pagesize (snd y) = pagesize os \<and> fsize os \<le> fsize (snd y) \<and>
         fsize (snd y) \<le> max (fsize os) (off + rem) \<and> fsize (snd y) \<le> max_int64 \<and>
         (fst y = None \<longrightarrow> fsize (snd y) = max (fsize os) (off + rem))"
  using assms
proof (induct d rem off os y rule: Create_loop.raw_induct[rotated 1, consumes 1, case_names step])
  case (step loop d rem off os y)
  note IH = step(1) and body = step(2) and pre = step(3-6)
  show ?case
  proof (cases "0 < rem")
    case False
    then have "y = (None, os)" using body by simp
    then show ?thesis using False pre by simp
  next
    case True
    obtain n e os1 where w: "WriteAt rem off os = ((n, e), os1)"
      by (metis surj_pair)
    from WriteAt_cases[OF w pre(1)]
    have f: "pagesize os1 = pagesize os" "0 \<le> n" "n \<le> rem"
      "fsize os1 = (if 0 < n then max (fsize os) (off + n) else fsize os)"
      "e = None \<or> 0 < n \<longrightarrow> 0 \<le> off \<and> off + rem \<le> max_int64"
      by simp_all
    show ?thesis
    proof (cases e)
      case (Some err)
      then have "y = (Some (WritePageFailed off err), os1)"
        using body True w by (simp add: fill_def)
      then show ?thesis using f pre by (auto simp: max_def)
    next
      case None
      have r: "i64 (rem - n) = rem - n"
        by (rule i64_small) (use f None pre in \<open>auto simp: max_int64_def\<close>)
      have o: "i64 (off + n) = off + n"
        by (rule i64_small) (use f None pre in auto)
      have call: "loop d (rem - n) (off + n) os1 = Some y"
        using body True w None by (simp add: fill_def r o)
      have "pagesize (snd y) = pagesize os1 \<and> fsize os1 \<le> fsize (snd y) \<and>
            fsize (snd y) \<le> max (fsize os1) (off + n + (rem - n)) \<and> fsize (snd y) \<le> max_int64 \<and>
            (fst y = None \<longrightarrow> fsize (snd y) = max (fsize os1) (off + n + (rem - n)))"
        by (rule IH[OF call]) (use f None pre in \<open>auto simp: max_def\<close>)
      then show ?thesis using f pre by (auto simp: max_def split: if_splits)
    qed
  qed
qed


lemma Stat_cases:
  "Stat os = (r, os1) \<Longrightarrow>
     fsize os1 = fsize os \<and> pagesize os1 = pagesize os \<and> (\<forall>sz. r = Inr sz \<longrightarrow> sz = fsize os)"
  by (auto simp: Stat_def record_event_def split: option.splits)

lemma PageCount_pages:
  assumes "0 < pageSize p" and "info p = int k * pageSize p" and "info p \<le> max_int64"
  shows "PageCount p = Done (int k)"
proof -
  have "info p sdiv pageSize p = int k"
    using assms(1,2) by (simp add: sdiv_nonneg)
  moreover have "int k \<le> int k * pageSize p"
    using assms(1) by (simp add: mult_le_cancel_left1)
  then have "i64 (int k) = int k" using assms(2,3) by (intro i64_small) auto
  ultimately show ?thesis using assms(1) by (simp add: PageCount_def)
qed

lemma Create_step:
  assumes "pages_ok d os k" and "cache_inv (cache d) xs" and "Create d os = Some out"
  shows "PageCount (pager d) = Done (int k) \<and>
         (\<exists>r d' os' xs'. out = Done (r, d', os') \<and> cache_inv (cache d') xs' \<and>
            (case r of Inr i \<Rightarrow> i = int k \<and> pages_ok d' os' (Suc k)
                     | Inl e \<Rightarrow> pages_ok d' os' k))"
proof -
  let ?ps = "pageSize (pager d)"
  have ok: "0 < ?ps" "info (pager d) = int k * ?ps" "info (pager d) \<le> fsize os"
    "fsize os \<le> info (pager d) + ?ps" "fsize os \<le> max_int64"
    using assms(1) by (simp_all add: pages_ok_def)
  have pc: "PageCount (pager d) = Done (int k)"
    by (rule PageCount_pages) (use ok in auto)
  have off: "i64 (int k * ?ps) = int k * ?ps"
    by (rule i64_small) (use ok in auto)
  obtain res os1 where loop: "Create_loop d ?ps (int k * ?ps) os = Some (res, os1)"
    using assms(3) pc off by (cases "Create_loop d ?ps (int k * ?ps) os") (auto simp: Create_def)
  from Create_loop_result[OF loop] ok
  have l: "pagesize os1 = pagesize os" "fsize os \<le> fsize os1"
    "fsize os1 \<le> max (fsize os) (int k * ?ps + ?ps)" "fsize os1 \<le> max_int64"
    "res = None \<longrightarrow> fsize os1 = max (fsize os) (int k * ?ps + ?ps)"
    by simp_all
  show ?thesis
  proof (cases res)
    case (Some err)
    then have out: "out = Done (Inl err, d, os1)"
      using assms(3) pc off loop by (simp add: Create_def)
    have "pages_ok d os1 k"
      using ok l by (auto simp: pages_ok_def max_def split: if_splits)
    then show ?thesis using pc out assms(2) by auto
  next
    case None
    then have sz: "fsize os1 = int k * ?ps + ?ps" using l(5) ok by (simp add: max_def)
    obtain r2 os2 where st: "Stat os1 = (r2, os2)" by (cases "Stat os1")
    from Stat_cases[OF st] have s2: "fsize os2 = fsize os1" "\<And>z. r2 = Inr z \<Longrightarrow> z = fsize os1"
      by simp_all
    show ?thesis
    proof (cases r2)
      case (Inl err)
      then have out: "out = Done (Inl (RefreshFailed err), d, os2)"
        using assms(3) pc off loop None st by (simp add: Create_def RefreshInfo_def)
      have "pages_ok d os2 k"
        using ok l s2(1) sz by (auto simp: pages_ok_def)
      then show ?thesis using pc out assms(2) by auto
    next
      case (Inr z)
      then have z: "z = int k * ?ps + ?ps" using s2(2) sz by simp
      define p1 where "p1 = (pager d)\<lparr>info := z\<rparr>"
      have rf: "RefreshInfo (pager d) os1 = (None, p1, os2)"
        using st Inr by (simp add: RefreshInfo_def p1_def)
      have "info p1 = int (Suc k) * pageSize p1" "0 < pageSize p1" "info p1 \<le> max_int64"
        using z ok l(4) sz by (simp_all add: p1_def algebra_simps)
      then have pc1: "PageCount p1 = Done (int (Suc k))" by (intro PageCount_pages) auto
      have "int k \<le> int k * ?ps" using ok(1) by (simp add: mult_le_cancel_left1)
      then have i: "i64 (int (Suc k) - 1) = int k"
        using ok by (intro trans[OF i64_small]) auto
      from Get_preserves[OF assms(2), of "int k"] obtain g c1 xs1 where
        g: "Get (int k) (cache d) = Done (g, c1)" "cache_inv c1 xs1"
        by blast
      have out: "out = Done (Inr (int k), \<lparr>cache = c1, pager = p1\<rparr>, os2)"
        using assms(3) pc off loop None rf pc1 i g(1) by (simp add: Create_def)
      have "pages_ok \<lparr>cache = c1, pager = p1\<rparr> os2 (Suc k)"
        using ok l(4) s2(1) sz z by (auto simp: pages_ok_def p1_def algebra_simps)
      then show ?thesis using pc out g(2) by auto
    qed
  qed
qed

lemma Creates_ids:
  assumes "pages_ok d os k" and "cache_inv (cache d) xs" and "Creates n d os = Some out"
  shows "\<exists>rs d' os' xs'. out = Done (rs, d', os') \<and> cache_inv (cache d') xs' \<and>
           created_ids rs = map int [k..<k + length (created_ids rs)] \<and>
           pages_ok d' os' (k + length (created_ids rs)) \<and>
           (\<forall>(pc, r) \<in> set rs. \<forall>i. r = Inr i \<longrightarrow> pc = Done i)"
  using assms
proof (induction n arbitrary: d os k xs out)
  case 0
  then show ?case by auto
next
  case (Suc n)
  obtain o1 where c: "Create d os = Some o1"
    using Suc.prems(3) by (cases "Create d os") auto
  from Create_step[OF Suc.prems(1,2) c] obtain r d1 os1 xs1 where
    s: "PageCount (pager d) = Done (int k)" "o1 = Done (r, d1, os1)" "cache_inv (cache d1) xs1"
      "case r of Inr i \<Rightarrow> i = int k \<and> pages_ok d1 os1 (Suc k) | Inl e \<Rightarrow> pages_ok d1 os1 k"
    by blast
  obtain o2 where c2: "Creates n d1 os1 = Some o2"
    using Suc.prems(3) c s(2) by (cases "Creates n d1 os1") auto
  define k1 where "k1 = (case r of Inr i \<Rightarrow> Suc k | Inl e \<Rightarrow> k)"
  have ok1: "pages_ok d1 os1 k1" using s(4) by (cases r) (auto simp: k1_def)
  from Suc.IH[OF ok1 s(3) c2] obtain rs d' os' xs' where
    t: "o2 = Done (rs, d', os')" "cache_inv (cache d') xs'"
      "created_ids rs = map int [k1..<k1 + length (created_ids rs)]"
      "pages_ok d' os' (k1 + length (created_ids rs))"
      "\<forall>(pc, r) \<in> set rs. \<forall>i. r = Inr i \<longrightarrow> pc = Done i"
    by blast
  have out: "out = Done ((Done (int k), r) # rs, d', os')"
    using Suc.prems(3) c s(1,2) c2 t(1) by simp
  show ?case
  proof (cases r)
    case (Inl e)
    then show ?thesis using out t s(4) by (auto simp: k1_def)
  next
    case (Inr i)
    then have i: "i = int k" using s(4) by simp
    have "created_ids ((Done (int k), r) # rs) = int k # map int [Suc k..<Suc k + length (created_ids rs)]"
      using Inr i t(3) by (simp add: k1_def)
    also have "\<dots> = map int [k..<k + Suc (length (created_ids rs))]"
      by (subst (2) upt_rec) simp
    also have "\<dots> = map int [k..<k + length (created_ids ((Done (int k), r) # rs))]"
      using Inr by simp
    finally have ids: "created_ids ((Done (int k), r) # rs)
        = map int [k..<k + length (created_ids ((Done (int k), r) # rs))]" .
    have "pages_ok d' os' (k + length (created_ids ((Done (int k), r) # rs)))"
      using t(4) Inr by (simp add: k1_def)
    then show ?thesis using out t(2,5) ids Inr i by auto
  qed
qed


lemma New_cases:
  assumes "New src cfg os = (Inr d, os1)"
  shows "cache d = NewCache cfg \<and> info (pager d) = fsize os \<and> pageSize (pager d) = pagesize os \<and>
         fsize os1 = fsize os \<and> pagesize os1 = pagesize os"
  using assms
  by (auto simp: New_def NewPager_def OpenFile_def Stat_def CloseFile_def record_event_def Let_def
           split: option.splits prod.splits sum.splits)

lemma Create_loop_done: "\<not> 0 < rem \<Longrightarrow> Create_loop d rem off os = Some (None, os)"
  by (subst Create_loop.simps) simp

lemma Create_loop_more:
  "0 < rem \<Longrightarrow>
     Create_loop d rem off os =
       (case fill d rem off os of
          ((n, None), os1) \<Rightarrow> Create_loop d (i64 (rem - n)) (i64 (off + n)) os1
        | ((n, Some err), os1) \<Rightarrow> Some (Some (WritePageFailed off err), os1))"
  by (subst Create_loop.simps) simp

lemmas viewer_eval = New_def NewPager_def OpenFile_def Stat_def CloseFile_def Create_def
  Create_loop_done Create_loop_more fill_def WriteAt_def RefreshInfo_def PageCount_def
  GetPage_def MapRegion_def Read_def i64_def max_int64_def signed_divide_int_def
  fresh_viewer_def opened_os_def created_viewer_def created_os_def read_viewer_def read_os_def

lemma WriteAt_host: "host (snd (WriteAt count offset os)) = host os"
  by (simp add: WriteAt_def Let_def record_event_def)

lemma Stat_host: "host (snd (Stat os)) = host os"
  by (simp add: Stat_def record_event_def split: option.splits)

lemma WriteAt_progress:
  assumes "WriteAt count offset os = ((n, None), os1)" and "0 < count"
    and "\<forall>k. rfail (host os k) = None \<longrightarrow> 1 \<le> rn (host os k)"
  shows "1 \<le> n \<and> n \<le> count \<and> count \<le> max_int64"
proof -
  have g: "\<not> (offset < 0 \<or> max_int64 < offset + count)"
    using assms(1) by (auto simp: WriteAt_def Let_def split: if_splits)
  then have n: "n = max 0 (min count (rn (answer os)))" and f: "failure os = None"
    using assms(1) by (auto simp: WriteAt_def Let_def)
  have "rfail (answer os) = None" using f by (simp add: failure_def)
  then have "1 \<le> rn (answer os)" using assms(3) by (simp add: answer_def)
  then show ?thesis using n g assms(2) by auto
qed

lemma Create_loop_returns:
  assumes "\<forall>k. rfail (host os k) = None \<longrightarrow> 1 \<le> rn (host os k)"
  shows "\<exists>y. Create_loop d rem off os = Some y \<and> host (snd y) = host os"
  using assms
proof (induction "nat rem" arbitrary: rem off os rule: less_induct)
  case less
  show ?case
  proof (cases "0 < rem")
    case False
    then show ?thesis by (simp add: Create_loop_done)
  next
    case True
    obtain n e os1 where w: "WriteAt rem off os = ((n, e), os1)" by (metis surj_pair)
    have h1: "host os1 = host os" using WriteAt_host[of rem off os] w by simp
    show ?thesis
    proof (cases e)
      case (Some err)
      then show ?thesis using True w h1 by (simp add: Create_loop_more fill_def)
    next
      case None
      from WriteAt_progress[OF w[unfolded None] True less.prems]
      have n: "1 \<le> n" "n \<le> rem" "rem \<le> max_int64" by simp_all
      have r: "i64 (rem - n) = rem - n" by (rule i64_small) (use n in auto)
      have "\<exists>y. Create_loop d (i64 (rem - n)) (i64 (off + n)) os1 = Some y \<and>
              host (snd y) = host os1"
        by (rule less.hyps) (use n r h1 less.prems in auto)
      then show ?thesis using True w None h1 by (simp add: Create_loop_more fill_def)
    qed
  qed
qed

lemma Create_returns:
  assumes "\<forall>k. rfail (host os k) = None \<longrightarrow> 1 \<le> rn (host os k)"
  shows "\<exists>out. Create d os = Some out \<and>
           (\<forall>r d' os'. out = Done (r, d', os') \<longrightarrow> host os' = host os)"
proof (cases "PageCount (pager d)")
  case Panic
  then show ?thesis by (simp add: Create_def)
next
  case (Done pc)
  from Create_loop_returns[OF assms, of d "pageSize (pager d)" "i64 (pc * pageSize (pager d))"]
  obtain res os1 where
    l: "Create_loop d (pageSize (pager d)) (i64 (pc * pageSize (pager d))) os = Some (res, os1)"
      "host os1 = host os"
    by auto
  have s: "host (snd (Stat os1)) = host os" using Stat_host[of os1] l(2) by simp
  show ?thesis
    using Done l s
    by (auto simp: Create_def RefreshInfo_def split: option.splits prod.splits sum.splits
          outcome.splits)
qed

lemma Creates_returns:
  assumes "\<forall>k. rfail (host os k) = None \<longrightarrow> 1 \<le> rn (host os k)"
  shows "\<exists>out. Creates n d os = Some out"
  using assms
proof (induction n arbitrary: d os)
  case 0
  then show ?case by simp
next
  case (Suc n)
  from Create_returns[OF Suc.prems, of d] obtain out where
    c: "Create d os = Some out" "\<forall>r d' os'. out = Done (r, d', os') \<longrightarrow> host os' = host os"
    by blast
  show ?case
  proof (cases out)
    case Panic
    then show ?thesis using c(1) by simp
  next
    case (Done x)
    obtain r d1 os1 where x: "x = (r, d1, os1)" by (cases x)
    have "host os1 = host os" using c(2) Done x by simp
    then have "\<exists>out. Creates n d1 os1 = Some out" using Suc.IH[of os1 d1] Suc.prems by simp
    then show ?thesis using c(1) Done x by (auto split: outcome.splits)
  qed
qed

lemma New_host: "host (snd (New src cfg os)) = host os"
  by (simp add: New_def NewPager_def OpenFile_def Stat_def CloseFile_def record_event_def Let_def
           split: option.splits prod.splits sum.splits)

text \<open>
  C1. A viewer is opened by \<open>New\<close> over an empty file, and \<open>Create\<close> is called
  \<open>n\<close> times in a row. Whatever the host answers to the writes and the stats in between:
  if all the calls return, none of them panicked, the ids returned by the calls that
  succeeded are 0, 1, 2, ... in call order, each of them what \<open>PageCount\<close> said just
  before its call, and after the run \<open>PageCount\<close> is the number of calls that succeeded.
  And all the calls do return, with these results, on every host that makes progress:
  \<open>Create\<close> can run for ever only on a host that keeps taking no byte of a write without
  answering an error.
\<close>

theorem Creates_from_empty_file:
  assumes "fsize os0 = 0" and "0 < pagesize os0"
    and "New src cfg os0 = (Inr d0, os1)"
  shows "(\<forall>out. Creates n d0 os1 = Some out \<longrightarrow>
            (\<exists>rs d os. out = Done (rs, d, os) \<and>
               created_ids rs = map int [0..<length (created_ids rs)] \<and>
               (\<forall>(pc, r) \<in> set rs. \<forall>i. r = Inr i \<longrightarrow> pc = Done i) \<and>
               PageCount (pager d) = Done (int (length (created_ids rs))))) \<and>
         (makes_progress (host os0) \<longrightarrow>
            (\<exists>rs d os. Creates n d0 os1 = Some (Done (rs, d, os)) \<and>
               created_ids rs = map int [0..<length (created_ids rs)] \<and>
               (\<forall>(pc, r) \<in> set rs. \<forall>i. r = Inr i \<longrightarrow> pc = Done i) \<and>
               PageCount (pager d) = Done (int (length (created_ids rs)))))"
proof -
  from New_cases[OF assms(3)] have n: "cache d0 = NewCache cfg" "info (pager d0) = fsize os0"
    "pageSize (pager d0) = pagesize os0" "fsize os1 = fsize os0"
    by simp_all
  have ok: "pages_ok d0 os1 0"
    using n assms(1,2) by (simp add: pages_ok_def max_int64_def)
  have inv: "cache_inv (cache d0) []" unfolding n(1) by (rule NewCache_inv)
  have part: "\<exists>rs d os. out = Done (rs, d, os) \<and>
               created_ids rs = map int [0..<length (created_ids rs)] \<and>
               (\<forall>(pc, r) \<in> set rs. \<forall>i. r = Inr i \<longrightarrow> pc = Done i) \<and>
               PageCount (pager d) = Done (int (length (created_ids rs)))"
    if run: "Creates n d0 os1 = Some out" for out
  proof -
    from Creates_ids[OF ok inv run] obtain rs d os xs where
      r: "out = Done (rs, d, os)" "cache_inv (cache d) xs"
        "created_ids rs = map int [0..<0 + length (created_ids rs)]"
        "pages_ok d os (0 + length (created_ids rs))"
        "\<forall>(pc, r) \<in> set rs. \<forall>i. r = Inr i \<longrightarrow> pc = Done i"
      by blast
    have "PageCount (pager d) = Done (int (length (created_ids rs)))"
      by (rule PageCount_pages) (use r(4) in \<open>auto simp: pages_ok_def\<close>)
    then show ?thesis using r by auto
  qed
  have total: "\<exists>rs d os. Creates n d0 os1 = Some (Done (rs, d, os)) \<and>
               created_ids rs = map int [0..<length (created_ids rs)] \<and>
               (\<forall>(pc, r) \<in> set rs. \<forall>i. r = Inr i \<longrightarrow> pc = Done i) \<and>
               PageCount (pager d) = Done (int (length (created_ids rs)))"
    if prog: "makes_progress (host os0)"
  proof -
    have "host os1 = host os0" using New_host[of src cfg os0] assms(3) by simp
    then have "\<forall>k. rfail (host os1 k) = None \<longrightarrow> 1 \<le> rn (host os1 k)"
      using prog by (simp add: makes_progress_def)
    from Creates_returns[OF this, of n d0] obtain out where run: "Creates n d0 os1 = Some out"
      by blast
    from part[OF run] show ?thesis using run by auto
  qed
  show ?thesis using part total by blast
qed

theorem Creates_from_empty_file_witness:
  "fsize (fresh_os 4096 (failing_at 4)) = 0 \<and> 0 < pagesize (fresh_os 4096 (failing_at 4)) \<and>
   New ''mint.db'' \<lparr>MaxCapacity = 2\<rparr> (fresh_os 4096 (failing_at 4))
     = (Inr (fresh_viewer 2), opened_os (failing_at 4)) \<and>
   makes_progress (host (fresh_os 4096 (failing_at 4))) \<and>
   (\<exists>d os. Creates (Suc (Suc (Suc 0))) (fresh_viewer 2) (opened_os (failing_at 4))
             = Some (Done ([(Done 0, Inr 0),
                            (Done 1, Inl (WritePageFailed 4096 (OSError 5))),
                            (Done 1, Inr 1)], d, os)) \<and>
           PageCount (pager d) = Done 2)"
proof -
  have h: "fsize (fresh_os 4096 (failing_at 4)) = 0" "0 < pagesize (fresh_os 4096 (failing_at 4))"
    by (simp_all add: fresh_os_def)
  have nw: "New ''mint.db'' \<lparr>MaxCapacity = 2\<rparr> (fresh_os 4096 (failing_at 4))
     = (Inr (fresh_viewer 2), opened_os (failing_at 4))"
    by (simp add: viewer_eval cache_eval)
  have pr: "makes_progress (host (fresh_os 4096 (failing_at 4)))"
    by (simp add: makes_progress_def fresh_os_def failing_at_def)
  have ev: "case Creates (Suc (Suc (Suc 0))) (fresh_viewer 2) (opened_os (failing_at 4)) of
              Some (Done (rs, d, os)) \<Rightarrow>
                rs = [(Done 0, Inr 0), (Done 1, Inl (WritePageFailed 4096 (OSError 5))), (Done 1, Inr 1)]
            | _ \<Rightarrow> False"
    by (simp add: viewer_eval cache_eval)
  from conjunct2[OF Creates_from_empty_file[OF h nw, of "Suc (Suc (Suc 0))"]] pr
  obtain rs d os where
    r: "Creates (Suc (Suc (Suc 0))) (fresh_viewer 2) (opened_os (failing_at 4))
          = Some (Done (rs, d, os))"
      "PageCount (pager d) = Done (int (length (created_ids rs)))"
    by blast
  have rs: "rs = [(Done 0, Inr 0), (Done 1, Inl (WritePageFailed 4096 (OSError 5))), (Done 1, Inr 1)]"
    using ev r(1) by simp
  have "PageCount (pager d) = Done 2" using r(2) rs by simp
  then show ?thesis using h nw pr r(1) rs by blast
qed

section \<open>What Create does to the cache\<close>

lemma insertAtFront_lookup: "insertAtFront n c = Done c' \<Longrightarrow> lookup c' = lookup c"
  by (auto simp: insertAtFront_def set_next_def set_prev_def Let_def split: option.splits)

lemma moveToFront_lookup: "moveToFront n c = Done c' \<Longrightarrow> lookup c' = lookup c"
  by (auto simp: moveToFront_def set_next_def set_prev_def Let_def
           split: option.splits if_splits dest!: insertAtFront_lookup)

lemma Get_lookup: "Get k c = Done (r, c') \<Longrightarrow> lookup c' = lookup c"
  by (auto simp: Get_def split: option.splits outcome.splits dest: moveToFront_lookup)

lemma Create_loop_nregions:
  assumes "Create_loop d rem off os = Some y"
  shows "nregions (snd y) = nregions os"
  using assms
proof (induct d rem off os y rule: Create_loop.raw_induct[rotated 1, consumes 1, case_names step])
  case (step loop d rem off os y)
  note IH = step(1) and body = step(2)
  show ?case
  proof (cases "0 < rem")
    case False
    then show ?thesis using body by auto
  next
    case True
    obtain n e os1 where w: "WriteAt rem off os = ((n, e), os1)" by (metis surj_pair)
    have n1: "nregions os1 = nregions os"
      using w by (auto simp: WriteAt_def Let_def record_event_def split: if_splits)
    show ?thesis
    proof (cases e)
      case None
      then have "loop d (i64 (rem - n)) (i64 (off + n)) os1 = Some y"
        using body True w by (simp add: fill_def)
      from IH[OF this] show ?thesis using n1 by simp
    next
      case (Some err)
      then show ?thesis using body True w n1 by (auto simp: fill_def)
    qed
  qed
qed

lemma Create_loop_any_viewer:
  assumes "Create_loop d rem off os = Some y"
  shows "Create_loop d2 rem off os = Some y"
  using assms
proof (induct d rem off os y rule: Create_loop.raw_induct[rotated 1, consumes 1, case_names step])
  case (step loop d rem off os y)
  note IH = step(1) and body = step(2)
  show ?case
  proof (cases "0 < rem")
    case False
    then show ?thesis using body by (simp add: Create_loop_done)
  next
    case True
    obtain n e os1 where w: "WriteAt rem off os = ((n, e), os1)" by (metis surj_pair)
    show ?thesis
    proof (cases e)
      case None
      then have "loop d (i64 (rem - n)) (i64 (off + n)) os1 = Some y"
        using body True w by (simp add: fill_def)
      from IH[OF this] show ?thesis using True w None by (simp add: Create_loop_more fill_def)
    next
      case (Some err)
      then show ?thesis using body True w by (simp add: Create_loop_more fill_def)
    qed
  qed
qed

text \<open>
  C3, as the code has it. A \<open>Create\<close> that returns, with an id or with an error, has
  inserted nothing into the cache and mapped no region: the map of the cache is the same
  after the call as before, so the cache holds an entry for the new id afterwards exactly
  when it held one before. And what the cache holds affects nothing else: started with any
  other well-formed cache in its place, the call returns the same id or error, and leaves
  the same pager and the same host state.
\<close>

theorem Create_leaves_cache_map_alone:
  assumes "Create d os = Some (Done (r, d', os'))"
  shows "lookup (cache d') = lookup (cache d) \<and>
         (\<forall>i. r = Inr i \<longrightarrow>
            (map_of (lookup (cache d')) i = None \<longleftrightarrow> map_of (lookup (cache d)) i = None)) \<and>
         nregions os' = nregions os \<and>
         (\<forall>c2 xs2. cache_inv c2 xs2 \<longrightarrow>
            (\<exists>c2'. Create (d\<lparr>cache := c2\<rparr>) os
                     = Some (Done (r, \<lparr>cache = c2', pager = pager d'\<rparr>, os')) \<and>
                   lookup c2' = lookup c2))"
proof -
  from assms obtain pc res os1 where
    s: "PageCount (pager d) = Done pc"
      "Create_loop d (pageSize (pager d)) (i64 (pc * pageSize (pager d))) os = Some (res, os1)"
    by (auto simp: Create_def split: outcome.splits option.splits prod.splits)
  have n1: "nregions os1 = nregions os" using Create_loop_nregions[OF s(2)] by simp
  have l2: "\<And>c2. Create_loop (d\<lparr>cache := c2\<rparr>) (pageSize (pager d))
                    (i64 (pc * pageSize (pager d))) os = Some (res, os1)"
    by (rule Create_loop_any_viewer[OF s(2)])
  show ?thesis
  proof (cases res)
    case (Some err)
    then have o: "r = Inl err" "d' = d" "os' = os1"
      using assms s by (simp_all add: Create_def)
    have "Create (d\<lparr>cache := c2\<rparr>) os = Some (Done (r, \<lparr>cache = c2, pager = pager d'\<rparr>, os'))"
      for c2
      using s(1) l2[of c2] Some o by (simp add: Create_def)
    then show ?thesis using o n1 by auto
  next
    case None
    obtain e p1 os2 where rf: "RefreshInfo (pager d) os1 = (e, p1, os2)"
      by (metis surj_pair)
    have n2: "nregions os2 = nregions os1"
      using rf by (auto simp: RefreshInfo_def Stat_def record_event_def split: option.splits)
    show ?thesis
    proof (cases e)
      case (Some err)
      then have o: "r = Inl (RefreshFailed err)" "d' = d\<lparr>pager := p1\<rparr>" "os' = os2"
        using assms s None rf by (simp_all add: Create_def)
      have "Create (d\<lparr>cache := c2\<rparr>) os
              = Some (Done (r, \<lparr>cache = c2, pager = pager d'\<rparr>, os'))" for c2
        using s(1) l2[of c2] None rf Some o by (simp add: Create_def)
      then show ?thesis using o n1 n2 by auto
    next
      case None2: None
      from assms s None rf None2 obtain pc1 g c1 pc2 where
        t: "PageCount p1 = Done pc1" "Get (i64 (pc1 - 1)) (cache d) = Done (g, c1)"
          "PageCount p1 = Done pc2" "r = Inr (i64 (pc2 - 1))" "d' = \<lparr>cache = c1, pager = p1\<rparr>"
          "os' = os2"
        by (auto simp: Create_def split: outcome.splits prod.splits)
      have lk: "lookup c1 = lookup (cache d)" by (rule Get_lookup[OF t(2)])
      have other: "\<exists>c2'. Create (d\<lparr>cache := c2\<rparr>) os
                     = Some (Done (r, \<lparr>cache = c2', pager = pager d'\<rparr>, os')) \<and>
                   lookup c2' = lookup c2"
        if "cache_inv c2 xs2" for c2 xs2
      proof -
        from Get_preserves[OF that, of "i64 (pc1 - 1)"] obtain g2 c2' where
          g2: "Get (i64 (pc1 - 1)) c2 = Done (g2, c2')" "lookup c2' = lookup c2"
          by blast
        have "Create (d\<lparr>cache := c2\<rparr>) os
                = Some (Done (r, \<lparr>cache = c2', pager = pager d'\<rparr>, os'))"
          using s(1) l2[of c2] None rf None2 t g2(1) by (simp add: Create_def)
        then show ?thesis using g2(2) by blast
      qed
      show ?thesis using t lk n1 n2 other by auto
    qed
  qed
qed

theorem Create_leaves_cache_map_alone_witness:
  "Create (fresh_viewer 2) (opened_os willing)
     = Some (Done (Inr 0, created_viewer 2, created_os willing)) \<and>
   lookup (cache (created_viewer 2)) = lookup (cache (fresh_viewer 2)) \<and>
   map_of (lookup (cache (created_viewer 2))) 0 = None \<and>
   nregions (created_os willing) = nregions (opened_os willing) \<and>
   cache_inv one_entry_cache [2] \<and> map_of (lookup one_entry_cache) 0 = Some 2 \<and>
   (\<exists>c2'. Create ((fresh_viewer 2)\<lparr>cache := one_entry_cache\<rparr>) (opened_os willing)
            = Some (Done (Inr 0, \<lparr>cache = c2', pager = pager (created_viewer 2)\<rparr>,
                          created_os willing)) \<and>
          lookup c2' = lookup one_entry_cache)"
proof -
  have c: "Create (fresh_viewer 2) (opened_os willing)
     = Some (Done (Inr 0, created_viewer 2, created_os willing))"
    by (simp add: viewer_eval cache_eval)
  have i: "cache_inv one_entry_cache [2]" "map_of (lookup one_entry_cache) 0 = Some 2"
    by (simp_all add: one_entry_cache_def cache_inv_def cache_eval)
  have m: "map_of (lookup (cache (created_viewer 2))) 0 = None"
    by (simp add: viewer_eval cache_eval)
  from Create_leaves_cache_map_alone[OF c] i m show ?thesis using c by blast
qed

text \<open>
  The claim as stated fails. A viewer is opened over an empty file on a host that never
  fails, and \<open>Create\<close> returns page 0: no population was attempted (no region was
  mapped), and the cache holds no entry for page 0, where it holds one after a
  \<open>Read\<close> of page 0.
\<close>

theorem Create_does_not_warm_cache_counterexample:
  "New ''mint.db'' \<lparr>MaxCapacity = 2\<rparr> (fresh_os 4096 willing)
     = (Inr (fresh_viewer 2), opened_os willing) \<and>
   Create (fresh_viewer 2) (opened_os willing)
     = Some (Done (Inr 0, created_viewer 2, created_os willing)) \<and>
   calls (created_os willing) = [EvOpenFile, EvStat, EvWriteAt 4096 0, EvStat] \<and>
   map_of (lookup (cache (created_viewer 2))) 0 = None \<and>
   Get 0 (cache (created_viewer 2)) = Done (Inl ErrCacheMiss, cache (created_viewer 2)) \<and>
   fst (returned (Read (created_viewer 2) 0 (created_os willing))) = Inr (Some 0) \<and>
   map_of (lookup (cache (fst (snd (returned (Read (created_viewer 2) 0 (created_os willing))))))) 0
     = Some 2"
  by (simp add: viewer_eval cache_eval)


section \<open>Closing the viewer\<close>

text \<open>
  C4. What \<open>Close\<close> of the viewer does when the cache cannot be closed cleanly. The viewer
  was opened with capacity 1, created page 0 and read it; the host fails the sixth call it
  gets, which is the unmap of page 0's region inside \<open>Close\<close>. Then \<open>Close\<close> returns the
  cache's error and the file is never closed: the unmap is the last call the host sees.
  On a host that never fails the same \<open>Close\<close> unmaps the region, then closes the file,
  and returns no error.
\<close>

theorem Close_skips_file_when_cache_fails:
  "New ''mint.db'' \<lparr>MaxCapacity = 1\<rparr> (fresh_os 4096 (failing_at 5))
     = (Inr (fresh_viewer 1), opened_os (failing_at 5)) \<and>
   Create (fresh_viewer 1) (opened_os (failing_at 5))
     = Some (Done (Inr 0, created_viewer 1, created_os (failing_at 5))) \<and>
   Read (created_viewer 1) 0 (created_os (failing_at 5))
     = Done (Inr (Some 0), read_viewer (failing_at 5), read_os (failing_at 5)) \<and>
   fst (DiskViewer_Close (read_viewer (failing_at 5)) (read_os (failing_at 5)))
     = Some (UnmapPageFailed 0 (OSError 5)) \<and>
   calls (snd (snd (DiskViewer_Close (read_viewer (failing_at 5)) (read_os (failing_at 5)))))
     = [EvOpenFile, EvStat, EvWriteAt 4096 0, EvStat, EvMapRegion 4096 0, EvUnmap (Some 0)] \<and>
   fst (DiskViewer_Close (read_viewer willing) (read_os willing)) = None \<and>
   calls (snd (snd (DiskViewer_Close (read_viewer willing) (read_os willing))))
     = [EvOpenFile, EvStat, EvWriteAt 4096 0, EvStat, EvMapRegion 4096 0, EvUnmap (Some 0), EvClose]"
  by (simp add: viewer_eval cache_eval DiskViewer_Close_def Cache_Close_def Pager_Close_def)


section \<open>Counting pages\<close>

lemma truncated_quotient:
  assumes "0 < (b::int)" and "0 \<le> a" and "a \<le> max_int64"
  shows "i64 (a sdiv b) = a sdiv b \<and> a sdiv b * b \<le> a \<and> a < (a sdiv b + 1) * b"
proof -
  have q: "a sdiv b = a div b" using assms by (simp add: sdiv_nonneg)
  have m: "a = a div b * b + a mod b" by simp
  have r: "0 \<le> a mod b" "a mod b < b" using assms(1) by simp_all
  have lo: "a div b * b \<le> a" using m r(1) by linarith
  have e: "(a div b + 1) * b = a div b * b + b" by (simp add: algebra_simps)
  have hi: "a < (a div b + 1) * b" unfolding e using m r(2) by linarith
  have nn: "0 \<le> a div b" using assms by (simp add: pos_imp_zdiv_nonneg_iff)
  have "a div b \<le> a div b * b" using nn assms(1) by (simp add: mult_le_cancel_left1)
  then have "a div b \<le> max_int64" using lo assms(3) by linarith
  then have "i64 (a div b) = a div b" using nn by (intro i64_small)
  then show ?thesis using q lo hi by simp
qed


text \<open>
  C8, as the code has it. The pager of the viewer divides the size it recorded at its last
  successful Stat (in \<open>NewPager\<close> or in \<open>RefreshInfo\<close>) by the page size, by truncated
  division, so that a trailing partial page is not counted: a successful \<open>RefreshInfo\<close>
  records the size the file has then, a failed one leaves the pager as it was, and a write
  changes the file only, never the pager. The other pager asks the file for its size inside
  \<open>PageCount\<close>: it returns the current size divided by the page size when that Stat
  succeeds, and the Stat's error when it fails.
\<close>

theorem PageCount_of_recorded_size:
  "(0 < pageSize p \<and> 0 \<le> info p \<and> info p \<le> max_int64 \<longrightarrow>
      PageCount p = Done (info p sdiv pageSize p) \<and>
      (info p sdiv pageSize p) * pageSize p \<le> info p \<and>
      info p < (info p sdiv pageSize p + 1) * pageSize p) \<and>
   (\<forall>p' os'. RefreshInfo p os = (None, p', os') \<longrightarrow>
      info p' = fsize os \<and> pageSize p' = pageSize p \<and> fsize os' = fsize os) \<and>
   (\<forall>e p' os'. RefreshInfo p os = (Some e, p', os') \<longrightarrow> p' = p) \<and>
   (\<forall>p0 os'. NewPager src os = (Inr p0, os') \<longrightarrow> info p0 = fsize os \<and> pageSize p0 = pagesize os) \<and>
   (0 < sp_pageSize sp \<and> 0 \<le> fsize os \<and> fsize os \<le> max_int64 \<longrightarrow>
      (case failure os of
         None \<Rightarrow>
           fst (StatPager_PageCount sp os) = Done (Inr (fsize os sdiv sp_pageSize sp)) \<and>
           (fsize os sdiv sp_pageSize sp) * sp_pageSize sp \<le> fsize os \<and>
           fsize os < (fsize os sdiv sp_pageSize sp + 1) * sp_pageSize sp
       | Some e \<Rightarrow> fst (StatPager_PageCount sp os) = Done (Inl e)))"
proof (intro conjI allI impI)
  assume a: "0 < pageSize p \<and> 0 \<le> info p \<and> info p \<le> max_int64"
  then have t: "i64 (info p sdiv pageSize p) = info p sdiv pageSize p \<and>
      info p sdiv pageSize p * pageSize p \<le> info p \<and>
      info p < (info p sdiv pageSize p + 1) * pageSize p"
    by (intro truncated_quotient) auto
  show "PageCount p = Done (info p sdiv pageSize p)" using a t by (simp add: PageCount_def)
  show "(info p sdiv pageSize p) * pageSize p \<le> info p" using t by simp
  show "info p < (info p sdiv pageSize p + 1) * pageSize p" using t by simp
next
  fix p' os' assume "RefreshInfo p os = (None, p', os')"
  then have r: "info p' = fsize os \<and> pageSize p' = pageSize p \<and> fsize os' = fsize os"
    by (auto simp: RefreshInfo_def Stat_def record_event_def split: option.splits)
  show "info p' = fsize os" using r by simp
  show "pageSize p' = pageSize p" using r by simp
  show "fsize os' = fsize os" using r by simp
next
  fix e p' os' assume "RefreshInfo p os = (Some e, p', os')"
  then show "p' = p"
    by (auto simp: RefreshInfo_def Stat_def record_event_def split: option.splits)
next
  fix p0 os' assume "NewPager src os = (Inr p0, os')"
  then have r: "info p0 = fsize os \<and> pageSize p0 = pagesize os"
    by (auto simp: NewPager_def OpenFile_def Stat_def CloseFile_def record_event_def Let_def
             split: option.splits prod.splits)
  show "info p0 = fsize os" using r by simp
  show "pageSize p0 = pagesize os" using r by simp
next
  assume a: "0 < sp_pageSize sp \<and> 0 \<le> fsize os \<and> fsize os \<le> max_int64"
  then have t: "i64 (fsize os sdiv sp_pageSize sp) = fsize os sdiv sp_pageSize sp \<and>
      fsize os sdiv sp_pageSize sp * sp_pageSize sp \<le> fsize os \<and>
      fsize os < (fsize os sdiv sp_pageSize sp + 1) * sp_pageSize sp"
    by (intro truncated_quotient) auto
  show "case failure os of
          None \<Rightarrow>
            fst (StatPager_PageCount sp os) = Done (Inr (fsize os sdiv sp_pageSize sp)) \<and>
            (fsize os sdiv sp_pageSize sp) * sp_pageSize sp \<le> fsize os \<and>
            fsize os < (fsize os sdiv sp_pageSize sp + 1) * sp_pageSize sp
        | Some e \<Rightarrow> fst (StatPager_PageCount sp os) = Done (Inl e)"
    using a t by (auto simp: StatPager_PageCount_def Stat_def split: option.splits)
qed


theorem PageCount_of_recorded_size_witness:
  "(0 < pageSize \<lparr>source = ''mint.db'', info = 5000, pageSize = 4096\<rparr> \<and>
    0 \<le> info \<lparr>source = ''mint.db'', info = 5000, pageSize = 4096\<rparr> \<and>
    info \<lparr>source = ''mint.db'', info = 5000, pageSize = 4096\<rparr> \<le> max_int64) \<and>
   PageCount \<lparr>source = ''mint.db'', info = 5000, pageSize = 4096\<rparr> = Done 1 \<and>
   RefreshInfo \<lparr>source = ''mint.db'', info = 5000, pageSize = 4096\<rparr> (two_page_os willing)
     = (None, \<lparr>source = ''mint.db'', info = 8192, pageSize = 4096\<rparr>,
        (two_page_os willing)\<lparr>calls := [EvStat]\<rparr>) \<and>
   RefreshInfo \<lparr>source = ''mint.db'', info = 5000, pageSize = 4096\<rparr> (two_page_os (failing_at 0))
     = (Some (OSError 5), \<lparr>source = ''mint.db'', info = 5000, pageSize = 4096\<rparr>,
        (two_page_os (failing_at 0))\<lparr>calls := [EvStat]\<rparr>) \<and>
   NewPager ''mint.db'' (two_page_os willing)
     = (Inr \<lparr>source = ''mint.db'', info = 8192, pageSize = 4096\<rparr>,
        (two_page_os willing)\<lparr>calls := [EvOpenFile, EvStat]\<rparr>) \<and>
   (0 < sp_pageSize \<lparr>sp_source = ''mint.db'', sp_pageSize = 4096\<rparr> \<and>
    0 \<le> fsize (two_page_os willing) \<and> fsize (two_page_os willing) \<le> max_int64) \<and>
   failure (two_page_os willing) = None \<and>
   fst (StatPager_PageCount \<lparr>sp_source = ''mint.db'', sp_pageSize = 4096\<rparr> (two_page_os willing))
     = Done (Inr 2) \<and>
   failure (two_page_os (failing_at 0)) = Some (OSError 5) \<and>
   fst (StatPager_PageCount \<lparr>sp_source = ''mint.db'', sp_pageSize = 4096\<rparr>
          (two_page_os (failing_at 0)))
     = Done (Inl (OSError 5))"
proof -
  let ?p = "\<lparr>source = ''mint.db'', info = 5000, pageSize = 4096\<rparr>"
  let ?sp = "\<lparr>sp_source = ''mint.db'', sp_pageSize = 4096\<rparr>"
  have h1: "0 < pageSize ?p \<and> 0 \<le> info ?p \<and> info ?p \<le> max_int64"
    by (simp add: max_int64_def)
  have h2: "0 < sp_pageSize ?sp \<and> 0 \<le> fsize (two_page_os willing) \<and>
            fsize (two_page_os willing) \<le> max_int64"
    "0 < sp_pageSize ?sp \<and> 0 \<le> fsize (two_page_os (failing_at 0)) \<and>
            fsize (two_page_os (failing_at 0)) \<le> max_int64"
    by (simp_all add: two_page_os_def max_int64_def)
  have f: "failure (two_page_os willing) = None"
    "failure (two_page_os (failing_at 0)) = Some (OSError 5)"
    by (simp_all add: two_page_os_def failure_def answer_def willing_def failing_at_def)
  have r: "RefreshInfo ?p (two_page_os willing)
             = (None, \<lparr>source = ''mint.db'', info = 8192, pageSize = 4096\<rparr>,
                (two_page_os willing)\<lparr>calls := [EvStat]\<rparr>)"
    "RefreshInfo ?p (two_page_os (failing_at 0))
             = (Some (OSError 5), ?p, (two_page_os (failing_at 0))\<lparr>calls := [EvStat]\<rparr>)"
    "NewPager ''mint.db'' (two_page_os willing)
             = (Inr \<lparr>source = ''mint.db'', info = 8192, pageSize = 4096\<rparr>,
                (two_page_os willing)\<lparr>calls := [EvOpenFile, EvStat]\<rparr>)"
    by (simp_all add: viewer_eval two_page_os_def failure_def answer_def record_event_def
          willing_def failing_at_def)
  note t1 = PageCount_of_recorded_size[where p = ?p and os = "two_page_os willing" and sp = ?sp
      and src = "''mint.db''"]
  note t2 = PageCount_of_recorded_size[where p = ?p and os = "two_page_os (failing_at 0)"
      and sp = ?sp and src = "''mint.db''"]
  have a: "PageCount ?p = Done 1"
    using conjunct1[OF t1] h1 by (simp add: signed_divide_int_def)
  have b: "fst (StatPager_PageCount ?sp (two_page_os willing)) = Done (Inr 2)"
    using conjunct2[OF conjunct2[OF conjunct2[OF conjunct2[OF t1]]]] h2(1) f(1)
    by (simp add: signed_divide_int_def two_page_os_def)
  have c: "fst (StatPager_PageCount ?sp (two_page_os (failing_at 0))) = Done (Inl (OSError 5))"
    using conjunct2[OF conjunct2[OF conjunct2[OF conjunct2[OF t2]]]] h2(2) f(2)
    by simp
  show ?thesis using h1 h2(1) f r a b c by simp
qed

text \<open>
  The claim as stated fails for the pager of the viewer. \<open>Create\<close> writes page 0 of an
  empty file, and the Stat of \<open>RefreshInfo\<close> fails: the file is one page long, and
  \<open>PageCount\<close> still says 0. Likewise right after the write of \<open>fill\<close>, before any
  \<open>RefreshInfo\<close>.
\<close>

theorem PageCount_stale_after_write_counterexample:
  "Create (fresh_viewer 2) (opened_os (failing_at 3))
     = Some (Done (Inl (RefreshFailed (OSError 5)), fresh_viewer 2,
                   (opened_os (failing_at 3))
                     \<lparr>fsize := 4096, calls := [EvOpenFile, EvStat, EvWriteAt 4096 0, EvStat]\<rparr>)) \<and>
   fill (fresh_viewer 2) 4096 0 (opened_os willing)
     = ((4096, None),
        (opened_os willing)\<lparr>fsize := 4096, calls := [EvOpenFile, EvStat, EvWriteAt 4096 0]\<rparr>) \<and>
   PageCount (pager (fresh_viewer 2)) = Done 0 \<and>
   (4096 :: int) sdiv pageSize (pager (fresh_viewer 2)) = 1"
  by (simp add: viewer_eval cache_eval)

end
